theory Spec2Isabelle
  imports Main "HOL-Library.List_Lexorder"
begin

section \<open>Python values, indexing and generators\<close>

text \<open>
  The zip tree of \<^verbatim>\<open>zip_tree_iterator.py\<close> is a nest of Python lists (chains), tuples
  (snarls, chain entries, distance records), integers (distances) and anything else (seeds; the
  example uses strings).  The iterators discriminate by run-time type, so the model keeps the
  dynamically typed values.
\<close>

datatype pyval = PStr string | PInt int | PTuple "pyval list" | PList "pyval list"

datatype py_error = IndexError | TypeError | AssertionError

text \<open>
  A generator is observed as the list of the values it yields and the exception, if any, that
  ends it (\<open>None\<close>: it ends normally).
\<close>

type_synonym 'a gen = "'a list \<times> py_error option"

text \<open>Python's \<^verbatim>\<open>xs[i]\<close> on a sequence: a negative index counts from the end.\<close>

definition seq_get :: "pyval list \<Rightarrow> int \<Rightarrow> py_error + pyval" where
  "seq_get xs i =
     (if 0 \<le> i \<and> i < int (length xs) then Inr (xs ! nat i)
      else if i < 0 \<and> - int (length xs) \<le> i then Inr (xs ! nat (int (length xs) + i))
      else Inl IndexError)"

fun getitem :: "pyval \<Rightarrow> int \<Rightarrow> py_error + pyval" where
  "getitem (PTuple xs) i = seq_get xs i"
| "getitem (PList xs) i = seq_get xs i"
| "getitem (PStr s) i = seq_get (map (\<lambda>c. PStr [c]) s) i"
| "getitem (PInt n) i = Inl TypeError"

text \<open>\<^verbatim>\<open>a + v\<close> for an integer \<open>a\<close> and a value \<open>v\<close>.\<close>

fun py_add :: "int \<Rightarrow> pyval \<Rightarrow> py_error + int" where
  "py_add a (PInt b) = Inr (a + b)"
| "py_add a v = Inl TypeError"

definition bind_err :: "py_error + 'a \<Rightarrow> ('a \<Rightarrow> py_error + 'b) \<Rightarrow> py_error + 'b" where
  "bind_err r f = (case r of Inl e \<Rightarrow> Inl e | Inr x \<Rightarrow> f x)"

text \<open>
  \<^verbatim>\<open>for x in g: body\<close> inside a generator, where the body yields at most one value:
  \<open>f x\<close> is \<open>Inr (Some y)\<close> when the body yields \<open>y\<close>, \<open>Inr None\<close> when it yields nothing and
  \<open>Inl e\<close> when it raises.  The values of \<open>g\<close> are consumed one at a time, so an exception of the
  body comes before anything \<open>g\<close> would have produced later, and an exception that ends \<open>g\<close>
  comes after the body has run on everything \<open>g\<close> yielded.
\<close>

fun for_each :: "('a \<Rightarrow> py_error + 'b option) \<Rightarrow> 'a list \<Rightarrow> py_error option \<Rightarrow> 'b gen" where
  "for_each f [] st = ([], st)"
| "for_each f (x # xs) st =
     (case f x of
        Inl e \<Rightarrow> ([], Some e)
      | Inr r \<Rightarrow> (case for_each f xs st of
                   (ys, st') \<Rightarrow> ((case r of None \<Rightarrow> [] | Some y \<Rightarrow> [y]) @ ys, st')))"

text \<open>Sequencing: what follows a generator loop runs only when the loop ended normally.\<close>

definition gen_then :: "'a gen \<Rightarrow> 'a gen \<Rightarrow> 'a gen" where
  "gen_then g h = (case snd g of Some e \<Rightarrow> g | None \<Rightarrow> (fst g @ fst h, snd h))"

text \<open>\<^verbatim>\<open>if isinstance(v, ().__class__): dist += v[-1][0]\<close>\<close>

fun add_snarl_min :: "pyval \<Rightarrow> int \<Rightarrow> py_error + int" where
  "add_snarl_min (PTuple xs) dist =
     bind_err (getitem (PTuple xs) (-1)) (\<lambda>b. bind_err (getitem b 0) (py_add dist))"
| "add_snarl_min v dist = Inr dist"

text \<open>\<^verbatim>\<open>if d <= max_distance: yield seed, d\<close>\<close>

definition yield_if :: "int \<Rightarrow> pyval \<Rightarrow> int \<Rightarrow> py_error + (pyval \<times> int) option" where
  "yield_if m seed d = Inr (if d \<le> m then Some (seed, d) else None)"

section \<open>The right-to-left walker\<close>

lemma seq_get_mem: "seq_get xs i = Inr w \<Longrightarrow> w \<in> set xs"
  by (auto simp: seq_get_def split: if_splits)

lemma size_mem_lt: "w \<in> set xs \<Longrightarrow> size w < Suc (size_list size xs)"
  by (induction xs) auto

lemma getitem_size_le: "getitem v i = Inr w \<Longrightarrow> size w \<le> size v"
proof (cases v)
  case (PStr s)
  assume "getitem v i = Inr w"
  with PStr have "seq_get (map (\<lambda>c. PStr [c]) s) i = Inr w" by simp
  then have "w \<in> set (map (\<lambda>c. PStr [c]) s)" by (rule seq_get_mem)
  then show ?thesis by auto
next
  case (PInt n)
  assume "getitem v i = Inr w"
  with PInt show ?thesis by simp
next
  case (PTuple xs)
  assume "getitem v i = Inr w"
  with PTuple have "w \<in> set xs" by (simp add: seq_get_mem)
  with PTuple show ?thesis using size_mem_lt [of w xs] by simp
next
  case (PList xs)
  assume "getitem v i = Inr w"
  with PList have "w \<in> set xs" by (simp add: seq_get_mem)
  with PList show ?thesis using size_mem_lt [of w xs] by simp
qed

text \<open>
  \<^verbatim>\<open>zip_element_right_to_left_iterator(element, max_distance)\<close>.  The two \<^verbatim>\<open>for i in range\<close>
  loops are the functions \<open>rtl_snarl_loop\<close> (\<open>i\<close> from \<open>len - 2\<close> down to \<open>0\<close>) and
  \<open>rtl_chain_loop\<close> (\<open>i\<close> from \<open>len - 1\<close> down to \<open>0\<close> in steps of two, with the running
  \<^verbatim>\<open>distance_from_right_chain_end\<close>); \<open>xs\<close> is the content of \<^verbatim>\<open>element\<close>.
\<close>

function zip_element_right_to_left_iterator :: "pyval \<Rightarrow> int \<Rightarrow> (pyval \<times> int) gen"
  and rtl_snarl_loop :: "pyval list \<Rightarrow> int \<Rightarrow> int \<Rightarrow> (pyval \<times> int) gen"
  and rtl_chain_loop :: "pyval list \<Rightarrow> int \<Rightarrow> int \<Rightarrow> int \<Rightarrow> (pyval \<times> int) gen"
where
  "zip_element_right_to_left_iterator (PTuple xs) m = rtl_snarl_loop xs m (int (length xs) - 2)"
| "zip_element_right_to_left_iterator (PList xs) m = rtl_chain_loop xs m (int (length xs) - 1) 0"
| "zip_element_right_to_left_iterator (PStr s) m = ([(PStr s, 0)], None)"
| "zip_element_right_to_left_iterator (PInt n) m = ([(PInt n, 0)], None)"
| "rtl_snarl_loop xs m i =
     (if i > -1 then
        (case getitem (PTuple xs) i of
           Inl e \<Rightarrow> ([], Some e)
         | Inr entry \<Rightarrow>
             (case getitem entry (-1) of
                Inl e \<Rightarrow> ([], Some e)
              | Inr c \<Rightarrow>
                  gen_then
                    (case zip_element_right_to_left_iterator c m of
                       (items, st) \<Rightarrow>
                         for_each (\<lambda>(seed, nested_distance).
                             bind_err (getitem (PTuple xs) (-1)) (\<lambda>b.
                             bind_err (getitem b (i + 1)) (\<lambda>x.
                             bind_err (py_add nested_distance x) (yield_if m seed))))
                           items st)
                    (rtl_snarl_loop xs m (i - 1))))
      else ([], None))"
| "rtl_chain_loop xs m i dist =
     (if i > -1 then
        (case getitem (PList xs) i of
           Inl e \<Rightarrow> ([], Some e)
         | Inr nested_element \<Rightarrow>
             gen_then
               (case zip_element_right_to_left_iterator nested_element m of
                  (items, st) \<Rightarrow>
                    for_each (\<lambda>(seed, nested_distance). yield_if m seed (nested_distance + dist))
                      items st)
               (case add_snarl_min nested_element dist of
                  Inl e \<Rightarrow> ([], Some e)
                | Inr dist1 \<Rightarrow>
                    (case (if i > 0 then bind_err (getitem (PList xs) (i - 1)) (py_add dist1)
                           else Inr dist1) of
                       Inl e \<Rightarrow> ([], Some e)
                     | Inr dist2 \<Rightarrow>
                         if dist2 > m then ([], None)
                         else rtl_chain_loop xs m (i - 2) dist2)))
      else ([], None))"
  by pat_completeness auto

termination
proof (relation "(\<lambda>x. case x of
                     Inl (e, m) \<Rightarrow> 2 * size e + 1
                   | Inr (Inl (xs, m, i)) \<Rightarrow> 2 * size (PTuple xs)
                   | Inr (Inr (xs, m, i, d)) \<Rightarrow> 2 * size (PList xs))
                 <*mlex*>
                 measure (\<lambda>x. case x of
                     Inl (e, m) \<Rightarrow> 0
                   | Inr (Inl (xs, m, i)) \<Rightarrow> nat (i + 2)
                   | Inr (Inr (xs, m, i, d)) \<Rightarrow> nat (i + 2))",
       goal_cases)
  case 1
  show ?case by (simp add: wf_mlex)
next
  case (2 xs m)
  show ?case by (simp add: mlex_less)
next
  case (3 xs m)
  show ?case by (simp add: mlex_less)
next
  case (4 xs m i entry c)
  from 4 have "size c \<le> size entry" by (simp add: getitem_size_le)
  moreover from 4 have "entry \<in> set xs" by (simp add: seq_get_mem)
  then have "size entry < Suc (size_list size xs)" by (rule size_mem_lt)
  ultimately show ?case by (simp add: mlex_less)
next
  case (5 xs m i entry c)
  then show ?case by (simp add: mlex_leq)
next
  case (6 xs m i dist nested_element)
  then have "nested_element \<in> set xs" by (simp add: seq_get_mem)
  then have "size nested_element < Suc (size_list size xs)" by (rule size_mem_lt)
  then show ?case by (simp add: mlex_less)
next
  case (7 xs m i dist nested_element dist1 dist2)
  then show ?case by (simp add: mlex_leq)
qed

section \<open>The left-to-right enumerator\<close>

text \<open>
  \<^verbatim>\<open>zip_element_left_to_right_iterator(element)\<close>.  The containment path is the flat Python
  list \<^verbatim>\<open>contained_elements + [element, i]\<close>: containers and indices alternate, the deepest
  container first.  \<open>ltr_snarl_loop\<close> is \<^verbatim>\<open>for i in range(0, len(element)-1)\<close> and
  \<open>ltr_chain_loop\<close> is \<^verbatim>\<open>for i in range(0, len(element), 2)\<close>.
\<close>

function zip_element_left_to_right_iterator :: "pyval \<Rightarrow> (pyval \<times> pyval list) gen"
  and ltr_snarl_loop :: "pyval list \<Rightarrow> nat \<Rightarrow> (pyval \<times> pyval list) gen"
  and ltr_chain_loop :: "pyval list \<Rightarrow> nat \<Rightarrow> (pyval \<times> pyval list) gen"
where
  "zip_element_left_to_right_iterator (PTuple xs) = ltr_snarl_loop xs 0"
| "zip_element_left_to_right_iterator (PList xs) = ltr_chain_loop xs 0"
| "zip_element_left_to_right_iterator (PStr s) = ([(PStr s, [])], None)"
| "zip_element_left_to_right_iterator (PInt n) = ([(PInt n, [])], None)"
| "ltr_snarl_loop xs i =
     (if int i < int (length xs) - 1 then
        (case getitem (PTuple xs) (int i) of
           Inl e \<Rightarrow> ([], Some e)
         | Inr entry \<Rightarrow>
             (case getitem entry (-1) of
                Inl e \<Rightarrow> ([], Some e)
              | Inr c \<Rightarrow>
                  gen_then
                    (case zip_element_left_to_right_iterator c of
                       (items, st) \<Rightarrow>
                         for_each (\<lambda>(seed, contained_elements).
                             Inr (Some (seed, contained_elements @ [PTuple xs, PInt (int i)])))
                           items st)
                    (ltr_snarl_loop xs (i + 1))))
      else ([], None))"
| "ltr_chain_loop xs i =
     (if i < length xs then
        (case getitem (PList xs) (int i) of
           Inl e \<Rightarrow> ([], Some e)
         | Inr nested_element \<Rightarrow>
             gen_then
               (case zip_element_left_to_right_iterator nested_element of
                  (items, st) \<Rightarrow>
                    for_each (\<lambda>(seed, contained_elements).
                        Inr (Some (seed, contained_elements @ [PList xs, PInt (int i)])))
                      items st)
               (ltr_chain_loop xs (i + 2)))
      else ([], None))"
  by pat_completeness auto

termination
proof (relation "(\<lambda>x. case x of
                     Inl e \<Rightarrow> 2 * size e + 1
                   | Inr (Inl (xs, i)) \<Rightarrow> 2 * size (PTuple xs)
                   | Inr (Inr (xs, i)) \<Rightarrow> 2 * size (PList xs))
                 <*mlex*>
                 measure (\<lambda>x. case x of
                     Inl e \<Rightarrow> 0
                   | Inr (Inl (xs, i)) \<Rightarrow> length xs - i
                   | Inr (Inr (xs, i)) \<Rightarrow> length xs - i)",
       goal_cases)
  case 1
  show ?case by (simp add: wf_mlex)
next
  case (2 xs)
  show ?case by (simp add: mlex_less)
next
  case (3 xs)
  show ?case by (simp add: mlex_less)
next
  case (4 xs i entry c)
  from 4 have "size c \<le> size entry" by (simp add: getitem_size_le)
  moreover from 4 have "entry \<in> set xs" by (simp add: seq_get_mem)
  then have "size entry < Suc (size_list size xs)" by (rule size_mem_lt)
  ultimately show ?case by (simp add: mlex_less)
next
  case (5 xs i entry c)
  then have "length xs - (i + 1) < length xs - i" by linarith
  then show ?case by (simp add: mlex_leq)
next
  case (6 xs i nested_element)
  then have "nested_element \<in> set xs" by (simp add: seq_get_mem)
  then have "size nested_element < Suc (size_list size xs)" by (rule size_mem_lt)
  then show ?case by (simp add: mlex_less)
next
  case (7 xs i nested_element)
  then have "length xs - (i + 2) < length xs - i" by linarith
  then show ?case by (simp add: mlex_leq)
qed

section \<open>The outward reachability walker\<close>

text \<open>
  How the body of the loop over the containers ends: it goes on to the next container with the
  new \<^verbatim>\<open>distance_from_right\<close>, it executes \<^verbatim>\<open>return\<close>, or it raises.
\<close>

datatype outcome = Continue int | Return | Raise py_error

text \<open>
  The snarl branch, \<^verbatim>\<open>for k in range(j-1, -1, -1)\<close>: the seeds of the chains before chain
  entry \<open>j\<close>, each at \<^verbatim>\<open>nested_distance + element[j][k + 1] + distance_from_right\<close>.
\<close>

function reach_snarl_loop :: "pyval \<Rightarrow> int \<Rightarrow> int \<Rightarrow> int \<Rightarrow> int \<Rightarrow> (pyval \<times> int) gen" where
  "reach_snarl_loop element j m dist k =
     (if k > -1 then
        (case bind_err (getitem element k) (\<lambda>entry. getitem entry (-1)) of
           Inl e \<Rightarrow> ([], Some e)
         | Inr c \<Rightarrow>
             gen_then
               (case zip_element_right_to_left_iterator c m of
                  (items, st) \<Rightarrow>
                    for_each (\<lambda>(seed, nested_distance).
                        bind_err (getitem element j) (\<lambda>ej.
                        bind_err (getitem ej (k + 1)) (\<lambda>x.
                        bind_err (py_add nested_distance x) (\<lambda>s.
                        yield_if m seed (s + dist)))))
                      items st)
               (reach_snarl_loop element j m dist (k - 1)))
      else ([], None))"
  by pat_completeness auto

termination
  by (relation "measure (\<lambda>(element, j, m, dist, k). nat (k + 1))") auto

text \<open>
  After the loop: \<^verbatim>\<open>distance_from_right += element[j][0]\<close>, then \<^verbatim>\<open>return\<close> when the
  distance exceeds \<^verbatim>\<open>max_distance\<close>.
\<close>

definition reach_snarl_step :: "pyval \<Rightarrow> int \<Rightarrow> int \<Rightarrow> int \<Rightarrow> (pyval \<times> int) list \<times> outcome" where
  "reach_snarl_step element j m dist =
     (case reach_snarl_loop element j m dist (j - 1) of
        (ys, Some e) \<Rightarrow> (ys, Raise e)
      | (ys, None) \<Rightarrow>
          (case bind_err (getitem element j) (\<lambda>ej. bind_err (getitem ej 0) (py_add dist)) of
             Inl e \<Rightarrow> (ys, Raise e)
           | Inr dist' \<Rightarrow> if dist' > m then (ys, Return) else (ys, Continue dist')))"

text \<open>The chain branch, \<^verbatim>\<open>for k in range(j - 2, -1, -2)\<close>.\<close>

function reach_chain_loop :: "pyval \<Rightarrow> int \<Rightarrow> int \<Rightarrow> int \<Rightarrow> (pyval \<times> int) list \<times> outcome" where
  "reach_chain_loop element m k dist =
     (if k > -1 then
        (case bind_err (getitem element (k + 1)) (py_add dist) of
           Inl e \<Rightarrow> ([], Raise e)
         | Inr dist1 \<Rightarrow>
             if dist1 > m then ([], Return)
             else
               (case getitem element k of
                  Inl e \<Rightarrow> ([], Raise e)
                | Inr ek \<Rightarrow>
                    (case (case zip_element_right_to_left_iterator ek m of
                             (items, st) \<Rightarrow>
                               for_each (\<lambda>(seed, nested_distance).
                                   yield_if m seed (nested_distance + dist1))
                                 items st) of
                       (ys, Some e) \<Rightarrow> (ys, Raise e)
                     | (ys, None) \<Rightarrow>
                         (case add_snarl_min ek dist1 of
                            Inl e \<Rightarrow> (ys, Raise e)
                          | Inr dist2 \<Rightarrow>
                              if dist2 > m then (ys, Return)
                              else (case reach_chain_loop element m (k - 2) dist2 of
                                      (zs, oc) \<Rightarrow> (ys @ zs, oc))))))
      else ([], Continue dist))"
  by pat_completeness auto

termination
  by (relation "measure (\<lambda>(element, m, k, dist). nat (k + 1))") auto

text \<open>
  One container of the path: \<^verbatim>\<open>element = contained_elements[i]\<close> and
  \<^verbatim>\<open>j = contained_elements[i+1]\<close>.  \<^verbatim>\<open>j - 1\<close> and \<^verbatim>\<open>j - 2\<close> raise when \<open>j\<close> is no integer.
\<close>

fun reach_step :: "pyval \<Rightarrow> pyval \<Rightarrow> int \<Rightarrow> int \<Rightarrow> (pyval \<times> int) list \<times> outcome" where
  "reach_step (PTuple xs) (PInt j) m dist = reach_snarl_step (PTuple xs) j m dist"
| "reach_step (PTuple xs) v m dist = ([], Raise TypeError)"
| "reach_step (PList xs) (PInt j) m dist = reach_chain_loop (PList xs) m (j - 2) dist"
| "reach_step (PList xs) v m dist = ([], Raise TypeError)"
| "reach_step element v m dist = ([], Raise AssertionError)"

text \<open>
  \<^verbatim>\<open>for i in range(0, len(contained_elements), 2)\<close>: the path is read two entries at a time;
  a last entry without its index raises at \<^verbatim>\<open>contained_elements[i+1]\<close>.
\<close>

fun reach_loop :: "pyval list \<Rightarrow> int \<Rightarrow> int \<Rightarrow> (pyval \<times> int) list \<times> outcome" where
  "reach_loop [] m dist = ([], Continue dist)"
| "reach_loop [element] m dist = ([], Raise IndexError)"
| "reach_loop (element # j # rest) m dist =
     (case reach_step element j m dist of
        (ys, Continue dist') \<Rightarrow> (case reach_loop rest m dist' of (zs, oc) \<Rightarrow> (ys @ zs, oc))
      | (ys, oc) \<Rightarrow> (ys, oc))"

definition zip_reachable_iterator :: "pyval list \<Rightarrow> int \<Rightarrow> (pyval \<times> int) gen" where
  "zip_reachable_iterator contained_elements m =
     (case reach_loop contained_elements m 0 of
        (ys, Raise e) \<Rightarrow> (ys, Some e)
      | (ys, oc) \<Rightarrow> (ys, None))"

section \<open>The all-pairs enumerator\<close>

fun pairs_loop :: "(pyval \<times> pyval list) list \<Rightarrow> py_error option \<Rightarrow> int
    \<Rightarrow> (pyval \<times> pyval \<times> int) gen" where
  "pairs_loop [] st m = ([], st)"
| "pairs_loop ((element, contained_elements) # rest) st m =
     gen_then
       (case zip_reachable_iterator contained_elements m of
          (items, st') \<Rightarrow>
            for_each (\<lambda>(element2, distance). Inr (Some (element, element2, distance))) items st')
       (pairs_loop rest st m)"

definition zip_element_pairs_iterator :: "pyval \<Rightarrow> int \<Rightarrow> (pyval \<times> pyval \<times> int) gen" where
  "zip_element_pairs_iterator zip_tree m =
     (case zip_element_left_to_right_iterator zip_tree of
        (items, st) \<Rightarrow> pairs_loop items st m)"

section \<open>Well-formed zip trees\<close>

text \<open>
  The grammar of the module's docstring.  A chain is a list of odd length in which elements
  (seeds or snarls) and distances alternate; a snarl is a tuple of chain entries followed by the
  boundary record, where chain entry \<open>i\<close> is a tuple of \<open>i + 1\<close> distances followed by a chain
  and the boundary record holds one distance more than there are chain entries.  A distance is a
  non-negative integer.  A snarl may have no chain entry.
\<close>

fun is_seed :: "pyval \<Rightarrow> bool" where
  "is_seed (PTuple xs) = False"
| "is_seed (PList xs) = False"
| "is_seed v = True"

fun is_distance :: "pyval \<Rightarrow> bool" where
  "is_distance (PInt n) = (0 \<le> n)"
| "is_distance v = False"

fun is_distances :: "nat \<Rightarrow> pyval \<Rightarrow> bool" where
  "is_distances n (PTuple ds) = (length ds = n \<and> list_all is_distance ds)"
| "is_distances n v = False"

function well_formed :: "pyval \<Rightarrow> bool" where
  "well_formed (PList xs) =
     (odd (length xs) \<and>
      list_all (\<lambda>i. if even i
                     then (case xs ! i of PList ys \<Rightarrow> False | v \<Rightarrow> well_formed v)
                     else is_distance (xs ! i))
        [0..<length xs])"
| "well_formed (PTuple xs) =
     (xs \<noteq> [] \<and> is_distances (length xs) (last xs) \<and>
      list_all (\<lambda>i. case xs ! i of
                       PTuple ys \<Rightarrow>
                         (if length ys = i + 2
                          then list_all is_distance (butlast ys) \<and>
                               (case last ys of PList zs \<Rightarrow> well_formed (PList zs) | v \<Rightarrow> False)
                          else False)
                     | v \<Rightarrow> False)
        [0..<length xs - 1])"
| "well_formed (PStr s) = True"
| "well_formed (PInt n) = True"
  by pat_completeness auto

termination
proof (relation "measure size", goal_cases)
  case 1
  show ?case by simp
next
  case (2 xs i s)
  then show ?case by simp
next
  case (3 xs i n)
  then show ?case by simp
next
  case (4 xs i ys)
  then have "i < length xs" by simp
  then have "xs ! i \<in> set xs" by (rule nth_mem)
  then have "size (xs ! i) < Suc (size_list size xs)" by (rule size_mem_lt)
  with 4 show ?case by simp
next
  case (5 xs i ys zs)
  then have "i < length xs" by simp
  then have "xs ! i \<in> set xs" by (rule nth_mem)
  then have a: "size (xs ! i) < Suc (size_list size xs)" by (rule size_mem_lt)
  from 5 have "ys \<noteq> []" by auto
  then have "last ys \<in> set ys" by simp
  then have "size (last ys) < Suc (size_list size ys)" by (rule size_mem_lt)
  with 5 a show ?case by simp
qed

section \<open>Leaf positions and the distances the tree encodes\<close>

text \<open>
  A seed occurrence is named by its position: the list of child indices on the way from the
  root to the seed, the outermost first.  In a chain the children are the entries at the even
  indices of the alternating list; in a snarl child \<open>i\<close> is the chain that ends chain entry
  \<open>i\<close>.  \<open>positions\<close> lists the positions of all seeds from left to right.  The distances
  follow the docstring of the module: \<open>snarl_min\<close> is entry 0 of a snarl's boundary record (the
  minimum distance across the snarl), \<open>right_offset e i\<close> is the distance from the right side of
  child \<open>i\<close> to the right end of \<open>e\<close>, \<open>left_offset e i\<close> the distance from its left side to
  the left end, and \<open>gap e i j\<close> the distance from the right side of child \<open>i\<close> to the left
  side of a later child \<open>j\<close>.  \<open>tree_distance e p q\<close> is the distance between the seeds at
  the positions \<open>p\<close> and \<open>q\<close> that these entries add up to.
\<close>

fun items_of :: "pyval \<Rightarrow> pyval list" where
  "items_of (PTuple xs) = xs"
| "items_of (PList xs) = xs"
| "items_of v = []"

fun the_int :: "pyval \<Rightarrow> int" where
  "the_int (PInt n) = n"
| "the_int v = 0"

fun chain_of_entry :: "pyval \<Rightarrow> pyval" where
  "chain_of_entry (PTuple ys) = (if ys = [] then PTuple ys else last ys)"
| "chain_of_entry v = v"

fun child :: "pyval \<Rightarrow> nat \<Rightarrow> pyval" where
  "child (PList xs) i = xs ! i"
| "child (PTuple xs) i = chain_of_entry (xs ! i)"
| "child v i = v"

fun child_indices :: "pyval \<Rightarrow> nat list" where
  "child_indices (PList xs) = map (\<lambda>k. 2 * k) [0..<(length xs + 1) div 2]"
| "child_indices (PTuple xs) = [0..<length xs - 1]"
| "child_indices v = []"

lemma chain_of_entry_size: "size (chain_of_entry v) \<le> size v"
proof (cases v)
  case (PTuple ys)
  show ?thesis
  proof (cases "ys = []")
    case True
    with PTuple show ?thesis by simp
  next
    case False
    then have "last ys \<in> set ys" by simp
    then have "size (last ys) < Suc (size_list size ys)" by (rule size_mem_lt)
    with PTuple False show ?thesis by simp
  qed
qed simp_all

function positions :: "pyval \<Rightarrow> nat list list" where
  "positions (PList xs) =
     concat (map (\<lambda>i. map ((#) i) (positions (xs ! i))) (child_indices (PList xs)))"
| "positions (PTuple xs) =
     concat (map (\<lambda>i. map ((#) i) (positions (chain_of_entry (xs ! i)))) (child_indices (PTuple xs)))"
| "positions (PStr s) = [[]]"
| "positions (PInt n) = [[]]"
  by pat_completeness auto

termination
proof (relation "measure size", goal_cases)
  case 1
  show ?case by simp
next
  case (2 xs i)
  then have "i < length xs" by auto
  then have "xs ! i \<in> set xs" by (rule nth_mem)
  then have "size (xs ! i) < Suc (size_list size xs)" by (rule size_mem_lt)
  then show ?case by simp
next
  case (3 xs i)
  then have "i < length xs" by auto
  then have "xs ! i \<in> set xs" by (rule nth_mem)
  then have "size (xs ! i) < Suc (size_list size xs)" by (rule size_mem_lt)
  with chain_of_entry_size [of "xs ! i"] show ?case by simp
qed

fun seed_at :: "pyval \<Rightarrow> nat list \<Rightarrow> pyval" where
  "seed_at e [] = e"
| "seed_at e (i # p) = seed_at (child e i) p"

fun containment_path :: "pyval \<Rightarrow> nat list \<Rightarrow> pyval list" where
  "containment_path e [] = []"
| "containment_path e (i # p) = containment_path (child e i) p @ [e, PInt (int i)]"

fun snarl_min :: "pyval \<Rightarrow> int" where
  "snarl_min (PTuple xs) = the_int (items_of (last xs) ! 0)"
| "snarl_min v = 0"

fun right_offset :: "pyval \<Rightarrow> nat \<Rightarrow> int" where
  "right_offset (PList xs) i =
     sum_list (map (\<lambda>k. the_int (xs ! (2 * k - 1)) + snarl_min (xs ! (2 * k)))
                [i div 2 + 1..<(length xs + 1) div 2])"
| "right_offset (PTuple xs) i = the_int (items_of (last xs) ! (i + 1))"
| "right_offset v i = 0"

fun left_offset :: "pyval \<Rightarrow> nat \<Rightarrow> int" where
  "left_offset (PList xs) i =
     sum_list (map (\<lambda>k. snarl_min (xs ! (2 * k)) + the_int (xs ! (2 * k + 1))) [0..<i div 2])"
| "left_offset (PTuple xs) i = the_int (items_of (xs ! i) ! 0)"
| "left_offset v i = 0"

fun gap :: "pyval \<Rightarrow> nat \<Rightarrow> nat \<Rightarrow> int" where
  "gap (PList xs) i j =
     the_int (xs ! (i + 1)) +
     sum_list (map (\<lambda>k. snarl_min (xs ! (2 * k)) + the_int (xs ! (2 * k + 1)))
                [i div 2 + 1..<j div 2])"
| "gap (PTuple xs) i j = the_int (items_of (xs ! j) ! (i + 1))"
| "gap v i j = 0"

fun dist_right :: "pyval \<Rightarrow> nat list \<Rightarrow> int" where
  "dist_right e [] = 0"
| "dist_right e (i # p) = dist_right (child e i) p + right_offset e i"

fun dist_left :: "pyval \<Rightarrow> nat list \<Rightarrow> int" where
  "dist_left e [] = 0"
| "dist_left e (i # p) = dist_left (child e i) p + left_offset e i"

fun tree_distance :: "pyval \<Rightarrow> nat list \<Rightarrow> nat list \<Rightarrow> int" where
  "tree_distance e (i # p) (j # q) =
     (if i = j then tree_distance (child e i) p q
      else if i < j then dist_right (child e i) p + gap e i j + dist_left (child e j) q
      else dist_right (child e j) q + gap e j i + dist_left (child e i) p)"
| "tree_distance e p q = 0"

fun before :: "pyval \<Rightarrow> nat list \<Rightarrow> nat list list" where
  "before e [] = []"
| "before e (i # q) =
     concat (map (\<lambda>l. map ((#) l) (positions (child e l))) (filter (\<lambda>l. l < i) (child_indices e)))
     @ map ((#) i) (before (child e i) q)"

definition rdists :: "pyval \<Rightarrow> (pyval \<times> int) list" where
  "rdists e = map (\<lambda>p. (seed_at e p, dist_right e p)) (positions e)"

definition within :: "int \<Rightarrow> (pyval \<times> int) list \<Rightarrow> (pyval \<times> int) list" where
  "within m ys = filter (\<lambda>(s, d). d \<le> m) ys"

definition shift :: "int \<Rightarrow> (pyval \<times> int) list \<Rightarrow> (pyval \<times> int) list" where
  "shift c ys = map (\<lambda>(s, d). (s, d + c)) ys"

text \<open>The walker on an element, seen through the caller's loop that adds \<open>c\<close> and filters.\<close>

definition rtl_ok :: "int \<Rightarrow> pyval \<Rightarrow> bool" where
  "rtl_ok m e \<longleftrightarrow> (\<forall>c\<ge>0. (case zip_element_right_to_left_iterator e m of
       (ys, st) \<Rightarrow> for_each (\<lambda>(s, nd). yield_if m s (nd + c)) ys st) =
     (within m (shift c (rev (rdists e))), None))"

definition lpaths :: "pyval \<Rightarrow> (pyval \<times> pyval list) list" where
  "lpaths e = map (\<lambda>p. (seed_at e p, containment_path e p)) (positions e)"

definition extend :: "pyval \<Rightarrow> nat \<Rightarrow> (pyval \<times> pyval list) list \<Rightarrow> (pyval \<times> pyval list) list" where
  "extend e i ys = map (\<lambda>(s, ce). (s, ce @ [e, PInt (int i)])) ys"

text \<open>The width of element \<open>l\<close> of a chain and of the distance to its right.\<close>

definition chain_width :: "pyval list \<Rightarrow> nat \<Rightarrow> int" where
  "chain_width xs l = snarl_min (xs ! (2 * l)) + the_int (xs ! (2 * l + 1))"

definition dists_to :: "pyval \<Rightarrow> nat list \<Rightarrow> int \<Rightarrow> (pyval \<times> int) list" where
  "dists_to e q d0 = map (\<lambda>p. (seed_at e p, tree_distance e p q + d0)) (rev (before e q))"

definition pairs_of :: "pyval \<Rightarrow> int \<Rightarrow> nat list \<Rightarrow> (pyval \<times> pyval \<times> int) list" where
  "pairs_of e m q = map (\<lambda>(s, d). (seed_at e q, s, d)) (within m (dists_to e q 0))"

fun leaf_position :: "pyval \<Rightarrow> nat list \<Rightarrow> bool" where
  "leaf_position e [] = is_seed e"
| "leaf_position e (i # p) = (i \<in> set (child_indices e) \<and> leaf_position (child e i) p)"

section \<open>The example tree of the module\<close>

definition example_inner_snarl :: pyval where
  "example_inner_snarl = PTuple [PTuple [PInt 2, PList [PStr ''f'']], PTuple [PInt 3, PInt 0]]"

definition example_snarl_entries :: "pyval list" where
  "example_snarl_entries =
     [PTuple [PInt 2, PList [PStr ''e'', PInt 4, example_inner_snarl, PInt 6, PStr ''g'']],
      PTuple [PInt 4, PInt 2, PList [PStr ''h'']],
      PTuple [PInt 1, PInt 2, PInt 1]]"

definition example_snarl :: pyval where
  "example_snarl = PTuple example_snarl_entries"

definition example_tree :: pyval where
  "example_tree =
     PList [PStr ''a'', PInt 5, PTuple [PTuple [PInt 1, PList [PStr ''b'']], PTuple [PInt 1, PInt 0]],
            PInt 10, PStr ''c'', PInt 4, PStr ''d'', PInt 3, example_snarl,
            PInt 7, PStr ''i'', PInt 2, PStr ''j'']"

text \<open>The containment path of the seed \<open>h\<close>, as the left-to-right enumerator builds it.\<close>

definition example_path_h :: "pyval list" where
  "example_path_h = [PList [PStr ''h''], PInt 0, example_snarl, PInt 1, example_tree, PInt 8]"

section \<open>Every yielded distance is within the bound\<close>

declare rtl_snarl_loop.simps [simp del] rtl_chain_loop.simps [simp del]
  ltr_snarl_loop.simps [simp del] ltr_chain_loop.simps [simp del]
  reach_snarl_loop.simps [simp del] reach_chain_loop.simps [simp del]

lemma for_each_yields: "y \<in> set (fst (for_each f xs st)) \<Longrightarrow> \<exists>x\<in>set xs. f x = Inr (Some y)"
  by (induction xs) (auto split: sum.splits prod.splits option.splits)

lemma gen_then_yields: "y \<in> set (fst (gen_then g h)) \<Longrightarrow> y \<in> set (fst g) \<or> y \<in> set (fst h)"
  by (auto simp: gen_then_def split: option.splits)

lemma bind_err_Inr: "bind_err r f = Inr z \<Longrightarrow> \<exists>x. r = Inr x \<and> f x = Inr z"
  by (cases r) (auto simp: bind_err_def)

lemma yield_if_Some: "yield_if m s d = Inr (Some y) \<Longrightarrow> snd y \<le> m"
  by (auto simp: yield_if_def split: if_splits)

lemma rtl_snarl_loop_le: "y \<in> set (fst (rtl_snarl_loop xs m i)) \<Longrightarrow> snd y \<le> m"
proof (induction "nat (i + 1)" arbitrary: i)
  case 0
  then show ?case by (simp add: rtl_snarl_loop.simps)
next
  case (Suc n)
  from Suc.hyps(2) have i: "i > -1" and n: "n = nat (i - 1 + 1)" by auto
  show ?case
  proof (cases "getitem (PTuple xs) i")
    case (Inl e)
    with Suc.prems i show ?thesis by (simp add: rtl_snarl_loop.simps [of xs m i])
  next
    case entry: (Inr entry)
    show ?thesis
    proof (cases "getitem entry (-1)")
      case (Inl e)
      with Suc.prems i entry show ?thesis by (simp add: rtl_snarl_loop.simps [of xs m i])
    next
      case (Inr c)
      obtain items st where r: "zip_element_right_to_left_iterator c m = (items, st)"
        by (cases "zip_element_right_to_left_iterator c m")
      from Suc.prems i entry Inr r
      consider "y \<in> set (fst (for_each (\<lambda>(seed, nested_distance).
                             bind_err (getitem (PTuple xs) (-1)) (\<lambda>b.
                             bind_err (getitem b (i + 1)) (\<lambda>x.
                             bind_err (py_add nested_distance x) (yield_if m seed))))
                           items st))"
        | "y \<in> set (fst (rtl_snarl_loop xs m (i - 1)))"
        by (auto simp: rtl_snarl_loop.simps [of xs m i] dest: gen_then_yields)
      then show ?thesis
      proof cases
        case 1
        then show ?thesis
          by (auto dest!: for_each_yields bind_err_Inr yield_if_Some)
      next
        case 2
        with Suc.hyps(1) [OF n] show ?thesis by simp
      qed
    qed
  qed
qed

lemma rtl_chain_loop_le: "y \<in> set (fst (rtl_chain_loop xs m i dist)) \<Longrightarrow> snd y \<le> m"
proof (induction "nat (i + 1)" arbitrary: i dist rule: less_induct)
  case less
  show ?case
  proof (cases "i > -1")
    case False
    with less.prems show ?thesis by (simp add: rtl_chain_loop.simps [of xs m i dist])
  next
    case True
    then have n: "nat (i - 2 + 1) < nat (i + 1)" by simp
    from less.prems True show ?thesis
      by (auto simp: rtl_chain_loop.simps [of xs m i dist]
          split: sum.splits prod.splits if_splits
          dest!: gen_then_yields for_each_yields yield_if_Some
          dest: less.hyps [OF n])
  qed
qed

lemma for_each_yields2:
  "for_each f xs st = (ys, st') \<Longrightarrow> y \<in> set ys \<Longrightarrow> \<exists>x\<in>set xs. f x = Inr (Some y)"
  using for_each_yields [of y f xs st] by simp

lemma rtl_le: "0 \<le> m \<Longrightarrow> y \<in> set (fst (zip_element_right_to_left_iterator e m)) \<Longrightarrow> snd y \<le> m"
  by (cases e) (auto dest: rtl_snarl_loop_le rtl_chain_loop_le)

lemma rtl_le2: "0 \<le> m \<Longrightarrow> zip_element_right_to_left_iterator e m = (ys, st) \<Longrightarrow> y \<in> set ys \<Longrightarrow> snd y \<le> m"
  using rtl_le [of m y e] by simp

lemma reach_snarl_loop_le:
  "reach_snarl_loop element j m dist k = (ys, st) \<Longrightarrow> y \<in> set ys \<Longrightarrow> snd y \<le> m"
proof (induction "nat (k + 1)" arbitrary: k ys st rule: less_induct)
  case less
  show ?case
  proof (cases "k > -1")
    case False
    with less.prems show ?thesis by (simp add: reach_snarl_loop.simps [of element j m dist k])
  next
    case True
    then have n: "nat (k - 1 + 1) < nat (k + 1)" by simp
    obtain zs st' where r: "reach_snarl_loop element j m dist (k - 1) = (zs, st')"
      by (cases "reach_snarl_loop element j m dist (k - 1)")
    from less.prems True r show ?thesis
      by (auto simp: reach_snarl_loop.simps [of element j m dist k] gen_then_def
          split: sum.splits prod.splits if_splits option.splits
          dest!: for_each_yields for_each_yields2 bind_err_Inr yield_if_Some
          dest: less.hyps [OF n])
  qed
qed

lemma reach_chain_loop_le:
  "reach_chain_loop element m k dist = (ys, oc) \<Longrightarrow> y \<in> set ys \<Longrightarrow> snd y \<le> m"
proof (induction "nat (k + 1)" arbitrary: k dist ys oc rule: less_induct)
  case less
  show ?case
  proof (cases "k > -1")
    case False
    with less.prems show ?thesis by (simp add: reach_chain_loop.simps [of element m k dist])
  next
    case True
    then have n: "nat (k - 2 + 1) < nat (k + 1)" by simp
    from less.prems True show ?thesis
      by (auto simp: reach_chain_loop.simps [of element m k dist]
          split: sum.splits prod.splits if_splits option.splits
          dest!: for_each_yields2 yield_if_Some
          dest: less.hyps [OF n])
  qed
qed

lemma reach_step_le: "reach_step element j m dist = (ys, oc) \<Longrightarrow> y \<in> set ys \<Longrightarrow> snd y \<le> m"
  by (cases "(element, j, m, dist)" rule: reach_step.cases)
     (auto simp: reach_snarl_step_def split: prod.splits option.splits sum.splits if_splits
       dest: reach_snarl_loop_le reach_chain_loop_le)

lemma reach_loop_le: "reach_loop ce m dist = (ys, oc) \<Longrightarrow> y \<in> set ys \<Longrightarrow> snd y \<le> m"
proof (induction ce m dist arbitrary: ys oc rule: reach_loop.induct)
  case (3 element j rest m dist)
  then show ?case
    by (auto split: prod.splits outcome.splits dest: reach_step_le)
qed simp_all

lemma reachable_le: "zip_reachable_iterator ce m = (ys, st) \<Longrightarrow> y \<in> set ys \<Longrightarrow> snd y \<le> m"
  by (auto simp: zip_reachable_iterator_def split: prod.splits outcome.splits dest: reach_loop_le)

lemma reachable_le2: "zip_reachable_iterator ce m = (ys, st) \<Longrightarrow> (s, d) \<in> set ys \<Longrightarrow> d \<le> m"
  using reachable_le [of ce m ys st "(s, d)"] by simp

lemma pairs_loop_le: "y \<in> set (fst (pairs_loop items st m)) \<Longrightarrow> snd (snd y) \<le> m"
proof (induction items st m rule: pairs_loop.induct)
  case (2 element contained_elements rest st m)
  obtain xs st1 where r: "zip_reachable_iterator contained_elements m = (xs, st1)"
    by (cases "zip_reachable_iterator contained_elements m")
  from 2(2) r consider
      "y \<in> set (fst (for_each (\<lambda>(element2, distance). Inr (Some (element, element2, distance))) xs st1))"
    | "y \<in> set (fst (pairs_loop rest st m))"
    by (auto dest: gen_then_yields)
  then show ?case
  proof cases
    case 1
    then obtain x where "x \<in> set xs" and "y = (element, fst x, snd x)"
      by (auto dest!: for_each_yields)
    with r show ?thesis using reachable_le [of contained_elements m xs st1 x] by simp
  next
    case 2
    then show ?thesis by (rule "2.IH")
  qed
qed simp

lemma pairs_le: "y \<in> set (fst (zip_element_pairs_iterator t m)) \<Longrightarrow> snd (snd y) \<le> m"
  by (auto simp: zip_element_pairs_iterator_def split: prod.splits dest: pairs_loop_le)

text \<open>
  Claim C3.  For a bound \<open>m \<ge> 0\<close>, every distance yielded by the right-to-left walker, by the
  outward reachability walker and by the all-pairs enumerator is at most \<open>m\<close>.  This holds for
  every element, every containment path and every tree, well-formed or not (and up to the point
  where a malformed input makes the generator raise).
\<close>

theorem bound_respected:
  assumes "0 \<le> m"
  shows "(\<forall>(seed, d) \<in> set (fst (zip_element_right_to_left_iterator e m)). d \<le> m) \<and>
         (\<forall>(seed, d) \<in> set (fst (zip_reachable_iterator ce m)). d \<le> m) \<and>
         (\<forall>(seed, seed2, d) \<in> set (fst (zip_element_pairs_iterator t m)). d \<le> m)"
proof (intro conjI ballI)
  fix y assume "y \<in> set (fst (zip_element_right_to_left_iterator e m))"
  with assms have "snd y \<le> m" by (rule rtl_le)
  then show "case y of (seed, d) \<Rightarrow> d \<le> m" by (simp add: case_prod_beta)
next
  fix y assume "y \<in> set (fst (zip_reachable_iterator ce m))"
  then have "snd y \<le> m"
    using reachable_le [of ce m "fst (zip_reachable_iterator ce m)" "snd (zip_reachable_iterator ce m)" y]
    by simp
  then show "case y of (seed, d) \<Rightarrow> d \<le> m" by (simp add: case_prod_beta)
next
  fix y assume "y \<in> set (fst (zip_element_pairs_iterator t m))"
  then have "snd (snd y) \<le> m" by (rule pairs_le)
  then show "case y of (seed, seed2, d) \<Rightarrow> d \<le> m" by (simp add: case_prod_beta)
qed

theorem bound_respected_witness:
  "(0::int) \<le> 15 \<and>
   list_all (\<lambda>(seed, d). d \<le> 15) (fst (zip_element_right_to_left_iterator example_tree 15)) \<and>
   list_all (\<lambda>(seed, d). d \<le> 15) (fst (zip_reachable_iterator example_path_h 15)) \<and>
   list_all (\<lambda>(seed, seed2, d). d \<le> 15) (fst (zip_element_pairs_iterator example_tree 15))"
  using bound_respected [of 15 example_tree example_path_h example_tree]
  by (simp add: list_all_iff)

section \<open>Degenerate inputs\<close>

text \<open>
  Claim C9.  A snarl with no chain entry is a tuple that holds only its boundary record, which
  then has one entry \<open>d\<close>.  The right-to-left walker, for every bound, and the left-to-right
  enumerator yield nothing for it and end normally.
\<close>

theorem empty_snarl_yields_nothing:
  "zip_element_right_to_left_iterator (PTuple [PTuple [d]]) m = ([], None) \<and>
   zip_element_left_to_right_iterator (PTuple [PTuple [d]]) = ([], None)"
  by (simp add: rtl_snarl_loop.simps ltr_snarl_loop.simps)

text \<open>
  Claim C10.  On the empty containment path the outward walker yields nothing, for every bound;
  so the all-pairs enumerator yields nothing for a tree that is a single bare seed (the
  left-to-right enumerator gives such a seed the empty path).
\<close>

theorem empty_path_reaches_nothing:
  "zip_reachable_iterator [] m = ([], None) \<and>
   zip_element_left_to_right_iterator (PStr s) = ([(PStr s, [])], None) \<and>
   zip_element_pairs_iterator (PStr s) m = ([], None) \<and>
   zip_element_pairs_iterator (PInt n) m = ([], None)"
  by (simp add: zip_reachable_iterator_def zip_element_pairs_iterator_def gen_then_def)

section \<open>Stepping out of a snarl\<close>

text \<open>
  Claim C2, as stated: once the chains before the seed's chain are exhausted, the outward walker
  adds entry 0 of the snarl's boundary record, \<^verbatim>\<open>element[-1][0]\<close>, to the running distance.
  The code adds \<^verbatim>\<open>element[j][0]\<close>, entry 0 of the chain entry \<open>j\<close> that holds the seed: the
  distance from the left side of the seed's chain to the left boundary of the snarl.  On the
  second snarl of the example tree, from chain entry 1, the boundary record starts with 1 and
  the chain entry with 4; the walk goes on with the distance 4, not 1.
\<close>

theorem snarl_step_boundary_record_counterexample:
  "getitem example_snarl (-1) = Inr (PTuple [PInt 1, PInt 2, PInt 1]) \<and>
   getitem (PTuple [PInt 1, PInt 2, PInt 1]) 0 = Inr (PInt 1) \<and>
   snd (reach_snarl_step example_snarl 1 15 0) = Continue 4 \<and>
   snd (reach_snarl_step example_snarl 1 15 0) \<noteq> Continue (0 + 1)"
  by code_simp

text \<open>
  Claim C2, amended.  When the current container is a snarl and the loop over the chains before
  chain entry \<open>j\<close> has ended normally with the yields \<open>ys\<close>, the distance \<open>d0\<close> at entry 0 of
  chain entry \<open>j\<close> is added to the running distance; when the sum exceeds the bound the whole
  walk stops there (nothing of the rest of the path is yielded), otherwise the walk goes on with
  the rest of the path at the new distance.
\<close>

theorem reach_snarl_step_adds_entry_distance:
  assumes "reach_snarl_loop (PTuple xs) j m dist (j - 1) = (ys, None)"
    and "getitem (PTuple xs) j = Inr ej"
    and "getitem ej 0 = Inr (PInt d0)"
  shows "reach_snarl_step (PTuple xs) j m dist =
           (ys, if dist + d0 > m then Return else Continue (dist + d0)) \<and>
         reach_loop (PTuple xs # PInt j # rest) m dist =
           (if dist + d0 > m then (ys, Return)
            else (ys @ fst (reach_loop rest m (dist + d0)), snd (reach_loop rest m (dist + d0))))"
  using assms by (simp add: reach_snarl_step_def bind_err_def split: prod.splits)

theorem reach_snarl_step_adds_entry_distance_witness:
  "reach_snarl_loop (PTuple example_snarl_entries) 1 3 0 (1 - 1) = ([(PStr ''g'', 2)], None) \<and>
   getitem (PTuple example_snarl_entries) 1 = Inr (PTuple [PInt 4, PInt 2, PList [PStr ''h'']]) \<and>
   getitem (PTuple [PInt 4, PInt 2, PList [PStr ''h'']]) 0 = Inr (PInt 4) \<and>
   reach_snarl_step (PTuple example_snarl_entries) 1 3 0 = ([(PStr ''g'', 2)], Return) \<and>
   reach_loop (PTuple example_snarl_entries # PInt 1 # [example_tree, PInt 8]) 3 0 =
     ([(PStr ''g'', 2)], Return)"
proof -
  have h1: "reach_snarl_loop (PTuple example_snarl_entries) 1 3 0 (1 - 1) = ([(PStr ''g'', 2)], None)"
    by code_simp
  have h2: "getitem (PTuple example_snarl_entries) 1 = Inr (PTuple [PInt 4, PInt 2, PList [PStr ''h'']])"
    by code_simp
  have h3: "getitem (PTuple [PInt 4, PInt 2, PList [PStr ''h'']]) 0 = Inr (PInt 4)"
    by code_simp
  from reach_snarl_step_adds_entry_distance [OF h1 h2 h3, of "[example_tree, PInt 8]"] h1 h2 h3
  show ?thesis by simp
qed

section \<open>The walkers on well-formed trees\<close>

lemma is_distance_iff: "is_distance v \<longleftrightarrow> (\<exists>n\<ge>0. v = PInt n)"
  by (cases v) auto

lemma wf_chain_odd: "well_formed (PList xs) \<Longrightarrow> odd (length xs)"
  by simp

lemma wf_chain_elem:
  assumes "well_formed (PList xs)" and "i < length xs" and "even i"
  shows "well_formed (xs ! i) \<and> (is_seed (xs ! i) \<or> (\<exists>ys. xs ! i = PTuple ys))"
proof -
  from assms have "case xs ! i of PList ys \<Rightarrow> False | v \<Rightarrow> well_formed v"
    by (simp add: list_all_iff)
  then show ?thesis by (cases "xs ! i") auto
qed

lemma wf_chain_dist:
  assumes "well_formed (PList xs)" and "i < length xs" and "odd i"
  shows "\<exists>n\<ge>0. xs ! i = PInt n"
proof -
  from assms have "is_distance (xs ! i)" by (simp add: list_all_iff)
  then show ?thesis by (simp add: is_distance_iff)
qed

lemma wf_snarl_boundary:
  assumes "well_formed (PTuple xs)"
  shows "xs \<noteq> [] \<and> (\<exists>ds. last xs = PTuple ds \<and> length ds = length xs \<and>
           (\<forall>l<length ds. \<exists>n\<ge>0. ds ! l = PInt n))"
proof -
  from assms have ne: "xs \<noteq> []" and d: "is_distances (length xs) (last xs)" by simp_all
  from d obtain ds where ds: "last xs = PTuple ds" "length ds = length xs" "list_all is_distance ds"
    by (cases "last xs") auto
  from ds(3) have "\<forall>l<length ds. \<exists>n\<ge>0. ds ! l = PInt n"
    by (simp add: list_all_length is_distance_iff)
  with ne ds show ?thesis by simp
qed

lemma wf_snarl_entry:
  assumes "well_formed (PTuple xs)" and "i < length xs - 1"
  shows "\<exists>ys zs. xs ! i = PTuple ys \<and> length ys = i + 2 \<and>
           (\<forall>l\<le>i. \<exists>n\<ge>0. ys ! l = PInt n) \<and> last ys = PList zs \<and> well_formed (PList zs)"
proof -
  from assms have e: "case xs ! i of
                       PTuple ys \<Rightarrow>
                         (if length ys = i + 2
                          then list_all is_distance (butlast ys) \<and>
                               (case last ys of PList zs \<Rightarrow> well_formed (PList zs) | v \<Rightarrow> False)
                          else False)
                     | v \<Rightarrow> False"
    by (simp add: list_all_iff)
  then obtain ys where ys: "xs ! i = PTuple ys" by (cases "xs ! i") auto
  with e have len: "length ys = i + 2" and ds: "list_all is_distance (butlast ys)"
    and c: "case last ys of PList zs \<Rightarrow> well_formed (PList zs) | v \<Rightarrow> False"
    by (auto split: if_splits)
  from c obtain zs where zs: "last ys = PList zs" "well_formed (PList zs)"
    by (cases "last ys") auto
  from ds len have "\<forall>l\<le>i. \<exists>n\<ge>0. ys ! l = PInt n"
    by (auto simp: list_all_length is_distance_iff nth_butlast)
  with ys len zs show ?thesis by blast
qed

declare well_formed.simps(1,2) [simp del]

lemma seq_get_nat: "i < length xs \<Longrightarrow> seq_get xs (int i) = Inr (xs ! i)"
  by (simp add: seq_get_def)

lemma seq_get_last: "xs \<noteq> [] \<Longrightarrow> seq_get xs (-1) = Inr (last xs)"
  by (cases xs rule: rev_cases) (auto simp: seq_get_def nth_append)

lemma within_append [simp]: "within m (xs @ ys) = within m xs @ within m ys"
  by (simp add: within_def)

lemma within_Nil [simp]: "within m [] = []"
  by (simp add: within_def)

lemma shift_append [simp]: "shift c (xs @ ys) = shift c xs @ shift c ys"
  by (simp add: shift_def)

lemma shift_Nil [simp]: "shift c [] = []"
  by (simp add: shift_def)

lemma shift_rev: "shift c (rev ys) = rev (shift c ys)"
  by (simp add: shift_def rev_map)

lemma within_rev: "within m (rev ys) = rev (within m ys)"
  by (simp add: within_def rev_filter)

lemma shift_shift: "shift c (shift d ys) = shift (d + c) ys"
  by (induction ys) (auto simp: shift_def)

lemma for_each_yield_shift:
  "for_each (\<lambda>(s, nd). yield_if m s (nd + c)) ys None = (within m (shift c ys), None)"
  by (induction ys) (auto simp: yield_if_def within_def shift_def)

lemma within_shift_within: "0 \<le> c \<Longrightarrow> within m (shift c (within m ys)) = within m (shift c ys)"
  by (induction ys) (auto simp: within_def shift_def)

lemma within_all_above: "(\<And>y. y \<in> set ys \<Longrightarrow> m < snd y) \<Longrightarrow> within m ys = []"
  by (force simp: within_def filter_empty_conv)

lemma gen_then_None [simp]: "gen_then (ys, None) h = (ys @ fst h, snd h)"
  by (simp add: gen_then_def)

lemma rtl_okD:
  "rtl_ok m e \<Longrightarrow> 0 \<le> c \<Longrightarrow>
   (case zip_element_right_to_left_iterator e m of
       (ys, st) \<Rightarrow> for_each (\<lambda>(s, nd). yield_if m s (nd + c)) ys st) =
     (within m (shift c (rev (rdists e))), None)"
  by (simp add: rtl_ok_def)

lemma rtl_ok_seed: "is_seed e \<Longrightarrow> rtl_ok m e"
  by (cases e) (auto simp: rtl_ok_def rdists_def yield_if_def within_def shift_def)

lemma rtl_ok_container:
  "zip_element_right_to_left_iterator e m = (within m (rev (rdists e)), None) \<Longrightarrow> rtl_ok m e"
  by (simp add: rtl_ok_def for_each_yield_shift within_shift_within)

lemma wf_snarl_getitem:
  assumes "well_formed (PTuple xs)" and "i < length xs - 1"
  shows "getitem (PTuple xs) (int i) = Inr (xs ! i)"
    and "getitem (xs ! i) (-1) = Inr (child (PTuple xs) i)"
    and "\<exists>zs. child (PTuple xs) i = PList zs"
    and "well_formed (child (PTuple xs) i)"
    and "getitem (PTuple xs) (-1) = Inr (last xs)"
    and "getitem (last xs) (int i + 1) = Inr (PInt (right_offset (PTuple xs) i))"
    and "0 \<le> right_offset (PTuple xs) i"
    and "getitem (last xs) 0 = Inr (PInt (snarl_min (PTuple xs)))"
    and "0 \<le> snarl_min (PTuple xs)"
proof -
  from wf_snarl_entry [OF assms] obtain ys zs where
    ys: "xs ! i = PTuple ys" "length ys = i + 2" "last ys = PList zs" "well_formed (PList zs)"
    by blast
  from wf_snarl_boundary [OF assms(1)] obtain ds where
    ds: "xs \<noteq> []" "last xs = PTuple ds" "length ds = length xs" "\<forall>l<length ds. \<exists>n\<ge>0. ds ! l = PInt n"
    by blast
  from assms(2) show "getitem (PTuple xs) (int i) = Inr (xs ! i)" by (simp add: seq_get_nat)
  from ys have ne: "ys \<noteq> []" by auto
  with ys show "getitem (xs ! i) (-1) = Inr (child (PTuple xs) i)" by (simp add: seq_get_last)
  from ys ne show "\<exists>zs. child (PTuple xs) i = PList zs" by simp
  from ys ne show "well_formed (child (PTuple xs) i)" by simp
  from ds show "getitem (PTuple xs) (-1) = Inr (last xs)" by (simp add: seq_get_last)
  from assms(2) ds have "i + 1 < length ds" by simp
  with ds(4) obtain n where n: "0 \<le> n" "ds ! (i + 1) = PInt n" by blast
  from \<open>i + 1 < length ds\<close> have "seq_get ds (int (i + 1)) = Inr (ds ! (i + 1))" by (rule seq_get_nat)
  with ds n show "getitem (last xs) (int i + 1) = Inr (PInt (right_offset (PTuple xs) i))"
    by (simp add: add.commute)
  from ds n show "0 \<le> right_offset (PTuple xs) i" by simp
  from ds assms(2) have "0 < length ds" by simp
  with ds(4) obtain n0 where n0: "0 \<le> n0" "ds ! 0 = PInt n0" by blast
  from \<open>0 < length ds\<close> have "seq_get ds (int 0) = Inr (ds ! 0)" by (rule seq_get_nat)
  with ds n0 show "getitem (last xs) 0 = Inr (PInt (snarl_min (PTuple xs)))" by simp
  from ds n0 show "0 \<le> snarl_min (PTuple xs)" by simp
qed

lemma rtl_snarl_loop_wf:
  assumes wf: "well_formed (PTuple xs)"
    and IH: "\<And>i. i < length xs - 1 \<Longrightarrow> rtl_ok m (child (PTuple xs) i)"
    and k: "k \<le> length xs - 1"
  shows "rtl_snarl_loop xs m (int k - 1) =
    (within m (rev (concat (map (\<lambda>i. shift (right_offset (PTuple xs) i) (rdists (child (PTuple xs) i)))
                         [0..<k]))), None)"
  using k
proof (induction k)
  case 0
  show ?case by (simp add: rtl_snarl_loop.simps)
next
  case (Suc k)
  then have i: "k < length xs - 1" by simp
  note g = wf_snarl_getitem [OF wf i]
  have F: "(\<lambda>(seed, nested_distance).
              bind_err (getitem (PTuple xs) (-1)) (\<lambda>b.
              bind_err (getitem b (int (Suc k) - 1 + 1)) (\<lambda>x.
              bind_err (py_add nested_distance x) (yield_if m seed)))) =
           (\<lambda>(s, nd). yield_if m s (nd + right_offset (PTuple xs) k))"
    using g(5,6) by (simp add: bind_err_def fun_eq_iff)
  from Suc i have rec: "rtl_snarl_loop xs m (int k - 1) =
    (within m (rev (concat (map (\<lambda>i. shift (right_offset (PTuple xs) i) (rdists (child (PTuple xs) i)))
                         [0..<k]))), None)" by simp
  have "rtl_snarl_loop xs m (int (Suc k) - 1) =
         gen_then (case zip_element_right_to_left_iterator (child (PTuple xs) k) m of
                     (ys, st) \<Rightarrow> for_each (\<lambda>(s, nd). yield_if m s (nd + right_offset (PTuple xs) k)) ys st)
                  (rtl_snarl_loop xs m (int k - 1))"
    using g(1,2) unfolding rtl_snarl_loop.simps [of xs m "int (Suc k) - 1"] F
    by simp
  also have "\<dots> = (within m (shift (right_offset (PTuple xs) k) (rev (rdists (child (PTuple xs) k))))
                   @ within m (rev (concat (map (\<lambda>i. shift (right_offset (PTuple xs) i) (rdists (child (PTuple xs) i)))
                         [0..<k]))), None)"
    using rtl_okD [OF IH [OF i] g(7)] rec by simp
  finally show ?case by (simp add: shift_rev)
qed

lemma wf_snarl_min:
  assumes "well_formed (PTuple xs)"
  shows "getitem (PTuple xs) (-1) = Inr (last xs)"
    and "getitem (last xs) 0 = Inr (PInt (snarl_min (PTuple xs)))"
    and "0 \<le> snarl_min (PTuple xs)"
proof -
  from wf_snarl_boundary [OF assms] obtain ds where
    ds: "xs \<noteq> []" "last xs = PTuple ds" "length ds = length xs" "\<forall>l<length ds. \<exists>n\<ge>0. ds ! l = PInt n"
    by blast
  from ds show "getitem (PTuple xs) (-1) = Inr (last xs)" by (simp add: seq_get_last)
  from ds have "0 < length ds" by simp
  with ds(4) obtain n0 where n0: "0 \<le> n0" "ds ! 0 = PInt n0" by blast
  from \<open>0 < length ds\<close> have "seq_get ds (int 0) = Inr (ds ! 0)" by (rule seq_get_nat)
  with ds n0 show "getitem (last xs) 0 = Inr (PInt (snarl_min (PTuple xs)))" by simp
  from ds n0 show "0 \<le> snarl_min (PTuple xs)" by simp
qed

lemma wf_add_snarl_min:
  assumes "well_formed e" and "is_seed e \<or> (\<exists>ys. e = PTuple ys)"
  shows "add_snarl_min e c = Inr (c + snarl_min e)" and "0 \<le> snarl_min e"
proof -
  show "add_snarl_min e c = Inr (c + snarl_min e)"
  proof (cases e)
    case (PTuple ys)
    with assms(1) wf_snarl_min [of ys] show ?thesis by (simp add: bind_err_def)
  next
    case (PList ys)
    with assms(2) show ?thesis by simp
  qed simp_all
  show "0 \<le> snarl_min e"
  proof (cases e)
    case (PTuple ys)
    with assms(1) wf_snarl_min [of ys] show ?thesis by simp
  qed simp_all
qed

lemma wf_chain_getitem:
  assumes "well_formed (PList xs)" and "2 * k < length xs"
  shows "getitem (PList xs) (2 * int k) = Inr (xs ! (2 * k))"
    and "well_formed (xs ! (2 * k))"
    and "add_snarl_min (xs ! (2 * k)) c = Inr (c + snarl_min (xs ! (2 * k)))"
    and "0 \<le> snarl_min (xs ! (2 * k))"
    and "0 < k \<Longrightarrow> getitem (PList xs) (2 * int k - 1) = Inr (PInt (the_int (xs ! (2 * k - 1))))"
    and "0 < k \<Longrightarrow> 0 \<le> the_int (xs ! (2 * k - 1))"
proof -
  from assms(2) have "seq_get xs (int (2 * k)) = Inr (xs ! (2 * k))" by (rule seq_get_nat)
  then show "getitem (PList xs) (2 * int k) = Inr (xs ! (2 * k))" by simp
  from wf_chain_elem [OF assms(1) assms(2)]
  have e: "well_formed (xs ! (2 * k))" "is_seed (xs ! (2 * k)) \<or> (\<exists>ys. xs ! (2 * k) = PTuple ys)"
    by simp_all
  from e show "well_formed (xs ! (2 * k))" by simp
  from wf_add_snarl_min [OF e]
  show "add_snarl_min (xs ! (2 * k)) c = Inr (c + snarl_min (xs ! (2 * k)))"
    and "0 \<le> snarl_min (xs ! (2 * k))" by simp_all
  {
    assume k: "0 < k"
    with assms(2) have lt: "2 * k - 1 < length xs" and odd: "odd (2 * k - 1)" by auto
    from wf_chain_dist [OF assms(1) lt odd] obtain n where n: "0 \<le> n" "xs ! (2 * k - 1) = PInt n"
      by blast
    from lt have "seq_get xs (int (2 * k - 1)) = Inr (xs ! (2 * k - 1))" by (rule seq_get_nat)
    moreover from k have "int (2 * k - 1) = 2 * int k - 1" by simp
    ultimately show "getitem (PList xs) (2 * int k - 1) = Inr (PInt (the_int (xs ! (2 * k - 1))))"
      using n by simp
    from n show "0 \<le> the_int (xs ! (2 * k - 1))" by simp
  }
qed

lemma right_offset_chain_last:
  "length xs \<le> 2 * k + 2 \<Longrightarrow> right_offset (PList xs) (2 * k) = 0"
  by simp

lemma right_offset_chain_step:
  assumes "0 < k" and "2 * k < length xs"
  shows "right_offset (PList xs) (2 * (k - 1)) =
         right_offset (PList xs) (2 * k) + the_int (xs ! (2 * k - 1)) + snarl_min (xs ! (2 * k))"
proof -
  from assms have "k < (length xs + 1) div 2" by linarith
  then have "[k..<(length xs + 1) div 2] = k # [Suc k..<(length xs + 1) div 2]"
    by (rule upt_conv_Cons)
  moreover from assms(1) have "2 * (k - 1) div 2 + 1 = k" by simp
  ultimately show ?thesis by simp
qed

lemma right_offset_chain_mono:
  assumes wf: "well_formed (PList xs)" and "2 * k < length xs" and "j \<le> k"
  shows "right_offset (PList xs) (2 * k) \<le> right_offset (PList xs) (2 * j)"
  using assms(3)
proof (induction "k - j" arbitrary: j)
  case 0
  then show ?case by simp
next
  case (Suc d)
  then have j: "j < k" "Suc j \<le> k" "d = k - Suc j" by simp_all
  with assms(2) have lt: "0 < Suc j" "2 * Suc j < length xs" by simp_all
  from right_offset_chain_step [OF lt]
  have "right_offset (PList xs) (2 * j) =
        right_offset (PList xs) (2 * Suc j) + the_int (xs ! (2 * Suc j - 1)) + snarl_min (xs ! (2 * Suc j))"
    by simp
  moreover from wf_chain_getitem(4,6) [OF wf lt(2)] lt(1)
  have "0 \<le> the_int (xs ! (2 * Suc j - 1))" "0 \<le> snarl_min (xs ! (2 * Suc j))" by simp_all
  moreover from Suc.hyps(1) [OF j(3) j(2)] have "right_offset (PList xs) (2 * k) \<le> right_offset (PList xs) (2 * Suc j)" .
  ultimately show ?case by linarith
qed

lemma positions_Cons_iff:
  "(i # p) \<in> set (positions e) \<longleftrightarrow> i \<in> set (child_indices e) \<and> p \<in> set (positions (child e i))"
  by (cases e) auto

lemma positions_Nil_iff: "[] \<in> set (positions e) \<longleftrightarrow> is_seed e"
  by (cases e) auto

lemma positions_container:
  "\<not> is_seed e \<Longrightarrow>
   positions e = concat (map (\<lambda>i. map ((#) i) (positions (child e i))) (child_indices e))"
  by (cases e) simp_all

lemma child_indices_chain_iff: "i \<in> set (child_indices (PList xs)) \<longleftrightarrow> even i \<and> i < length xs"
proof
  assume "i \<in> set (child_indices (PList xs))"
  then obtain k where "i = 2 * k" "k < (length xs + 1) div 2" by auto
  then show "even i \<and> i < length xs" by auto
next
  assume a: "even i \<and> i < length xs"
  then have "i = 2 * (i div 2)" "i div 2 < (length xs + 1) div 2" by auto
  then show "i \<in> set (child_indices (PList xs))"
    by (metis (no_types, lifting) atLeastLessThan_iff child_indices.simps(1) imageI list.set_map set_upt zero_le)
qed

lemma wf_child:
  assumes "well_formed e" and "i \<in> set (child_indices e)"
  shows "well_formed (child e i)"
proof (cases e)
  case (PList xs)
  from assms(2) have "i \<in> set (child_indices (PList xs))" unfolding PList .
  then have "even i" "i < length xs" by (simp_all only: child_indices_chain_iff)
  with assms(1) PList show ?thesis using wf_chain_elem [of xs i] by simp
next
  case (PTuple xs)
  with assms show ?thesis using wf_snarl_getitem(4) [of xs i] by simp
qed (use assms in simp_all)

lemma right_offset_nonneg:
  assumes "well_formed e" and "i \<in> set (child_indices e)"
  shows "0 \<le> right_offset e i"
proof (cases e)
  case (PList xs)
  have "0 \<le> the_int (xs ! (2 * k - 1)) + snarl_min (xs ! (2 * k))"
    if "k \<in> set [i div 2 + 1..<(length xs + 1) div 2]" for k
  proof -
    from that have k: "0 < k" "2 * k < length xs" by auto
    from wf_chain_getitem(4,6) [of xs k] assms(1) PList k show ?thesis by simp
  qed
  then have "0 \<le> sum_list (map (\<lambda>k. the_int (xs ! (2 * k - 1)) + snarl_min (xs ! (2 * k)))
                [i div 2 + 1..<(length xs + 1) div 2])"
    by (intro sum_list_nonneg) auto
  with PList show ?thesis by simp
next
  case (PTuple xs)
  with assms show ?thesis using wf_snarl_getitem(7) [of xs i] by simp
qed simp_all

lemma dist_right_nonneg:
  "well_formed e \<Longrightarrow> p \<in> set (positions e) \<Longrightarrow> 0 \<le> dist_right e p"
proof (induction p arbitrary: e)
  case Nil
  show ?case by simp
next
  case (Cons i p)
  from Cons.prems(2) have i: "i \<in> set (child_indices e)" and p: "p \<in> set (positions (child e i))"
    by (simp_all add: positions_Cons_iff)
  from Cons.IH [OF wf_child [OF Cons.prems(1) i] p] right_offset_nonneg [OF Cons.prems(1) i]
  show ?case by simp
qed

lemma rdists_nonneg: "well_formed e \<Longrightarrow> y \<in> set (rdists e) \<Longrightarrow> 0 \<le> snd y"
  by (auto simp: rdists_def dist_right_nonneg)

lemma rdists_container:
  assumes "\<not> is_seed e"
  shows "rdists e = concat (map (\<lambda>i. shift (right_offset e i) (rdists (child e i))) (child_indices e))"
proof -
  have "map (\<lambda>p. (seed_at e p, dist_right e p)) (map ((#) i) ps) =
        shift (right_offset e i) (map (\<lambda>p. (seed_at (child e i) p, dist_right (child e i) p)) ps)" for i ps
    by (simp add: shift_def)
  then show ?thesis
    unfolding rdists_def positions_container [OF assms] map_concat
    by (simp add: comp_def)
qed

lemma rdists_chain:
  "rdists (PList xs) =
   concat (map (\<lambda>k. shift (right_offset (PList xs) (2 * k)) (rdists (xs ! (2 * k))))
             [0..<(length xs + 1) div 2])"
  by (simp add: rdists_container comp_def)

lemma rdists_snarl:
  "rdists (PTuple xs) =
   concat (map (\<lambda>i. shift (right_offset (PTuple xs) i) (rdists (child (PTuple xs) i)))
             [0..<length xs - 1])"
  by (simp add: rdists_container)

lemma shift_ge: "y \<in> set (shift c ys) \<Longrightarrow> (\<And>z. z \<in> set ys \<Longrightarrow> 0 \<le> snd z) \<Longrightarrow> c \<le> snd y"
  by (auto simp: shift_def)

lemma rtl_chain_loop_wf:
  assumes wf: "well_formed (PList xs)"
    and IH: "\<And>k. 2 * k < length xs \<Longrightarrow> rtl_ok m (xs ! (2 * k))"
  shows "2 * k \<le> length xs + 1 \<Longrightarrow> k = 0 \<or> c = right_offset (PList xs) (2 * (k - 1)) \<Longrightarrow>
    rtl_chain_loop xs m (2 * int k - 2) c =
    (within m (rev (concat (map (\<lambda>j. shift (right_offset (PList xs) (2 * j)) (rdists (xs ! (2 * j))))
                         [0..<k]))), None)"
proof (induction k arbitrary: c)
  case 0
  show ?case by (simp add: rtl_chain_loop.simps)
next
  case (Suc k)
  then have lt: "2 * k < length xs" and c: "c = right_offset (PList xs) (2 * k)" by simp_all
  note g = wf_chain_getitem [OF wf lt]
  have c0: "0 \<le> c" unfolding c
    using right_offset_nonneg [OF wf, of "2 * k"] lt by (simp add: child_indices_chain_iff)
  define L where "L = (\<lambda>j. shift (right_offset (PList xs) (2 * j)) (rdists (xs ! (2 * j))))"
  define dist2 where "dist2 = (if 0 < k then c + snarl_min (xs ! (2 * k)) + the_int (xs ! (2 * k - 1))
                               else c + snarl_min (xs ! (2 * k)))"
  have d2: "(if 0 < k then bind_err (getitem (PList xs) (2 * int k - 1)) (py_add (c + snarl_min (xs ! (2 * k))))
             else Inr (c + snarl_min (xs ! (2 * k)))) = Inr dist2"
    using g(5) by (auto simp: dist2_def bind_err_def)
  have first: "(case zip_element_right_to_left_iterator (xs ! (2 * k)) m of
                  (ys, st) \<Rightarrow> for_each (\<lambda>(s, nd). yield_if m s (nd + c)) ys st) =
               (within m (shift c (rev (rdists (xs ! (2 * k))))), None)"
    by (rule rtl_okD [OF IH [OF lt] c0])
  have rest: "(if dist2 > m then ([], None) else rtl_chain_loop xs m (2 * int k - 2) dist2) =
              (within m (rev (concat (map L [0..<k]))), None)"
  proof (cases "k = 0")
    case True
    then show ?thesis by (simp add: rtl_chain_loop.simps)
  next
    case False
    then have k: "0 < k" by simp
    from right_offset_chain_step [OF k lt] have d2': "dist2 = right_offset (PList xs) (2 * (k - 1))"
      by (simp add: dist2_def c k)
    show ?thesis
    proof (cases "dist2 > m")
      case True
      have "m < snd y" if "y \<in> set (rev (concat (map L [0..<k])))" for y
      proof -
        from that obtain j where j: "j < k" "y \<in> set (L j)" by auto
        from j lt have ltj: "2 * j < length xs" by simp
        from j(2) have "right_offset (PList xs) (2 * j) \<le> snd y"
          unfolding L_def
          by (rule shift_ge) (rule rdists_nonneg [OF wf_chain_getitem(2) [OF wf ltj]])
        moreover from k lt have "2 * (k - 1) < length xs" by simp
        from right_offset_chain_mono [OF wf this, of j] j(1)
        have "right_offset (PList xs) (2 * (k - 1)) \<le> right_offset (PList xs) (2 * j)" by simp
        ultimately show ?thesis using True d2' by simp
      qed
      then have "within m (rev (concat (map L [0..<k]))) = []" by (rule within_all_above)
      with True show ?thesis by simp
    next
      case False
      from Suc.IH [of dist2] lt d2' have "rtl_chain_loop xs m (2 * int k - 2) dist2 =
         (within m (rev (concat (map L [0..<k]))), None)" by (simp add: L_def)
      with False show ?thesis by simp
    qed
  qed
  have i_eq: "2 * int (Suc k) - 2 = 2 * int k" by simp
  have "rtl_chain_loop xs m (2 * int (Suc k) - 2) c =
        gen_then (case zip_element_right_to_left_iterator (xs ! (2 * k)) m of
                  (ys, st) \<Rightarrow> for_each (\<lambda>(s, nd). yield_if m s (nd + c)) ys st)
          (if dist2 > m then ([], None) else rtl_chain_loop xs m (2 * int k - 2) dist2)"
    unfolding i_eq rtl_chain_loop.simps [of xs m "2 * int k" c]
    by (simp add: g(1) g(3) d2 del: getitem.simps split del: if_split)
  also have "\<dots> = (within m (shift c (rev (rdists (xs ! (2 * k))))) @ within m (rev (concat (map L [0..<k]))), None)"
    unfolding first rest by simp
  finally show ?case by (simp add: L_def shift_rev c)
qed

lemma child_size:
  assumes "i \<in> set (child_indices e)"
  shows "size (child e i) < size e"
proof (cases e)
  case (PList xs)
  from assms have "i \<in> set (child_indices (PList xs))" unfolding PList .
  then have "i < length xs" by (simp only: child_indices_chain_iff)
  then have "xs ! i \<in> set xs" by (rule nth_mem)
  then have "size (xs ! i) < Suc (size_list size xs)" by (rule size_mem_lt)
  with PList show ?thesis by simp
next
  case (PTuple xs)
  with assms have "i < length xs" by simp
  then have "xs ! i \<in> set xs" by (rule nth_mem)
  then have "size (xs ! i) < Suc (size_list size xs)" by (rule size_mem_lt)
  with PTuple chain_of_entry_size [of "xs ! i"] show ?thesis by simp
qed (use assms in simp_all)

lemma rtl_wf_both:
  "well_formed e \<Longrightarrow>
   rtl_ok m e \<and>
   (\<not> is_seed e \<longrightarrow> zip_element_right_to_left_iterator e m = (within m (rev (rdists e)), None))"
proof (induction e rule: measure_induct_rule [of size])
  case (less e)
  have IH: "rtl_ok m (child e i)" if "i \<in> set (child_indices e)" for i
    using less.IH [OF child_size [OF that] wf_child [OF less.prems that]] by simp
  show ?case
  proof (cases e)
    case (PStr s)
    then show ?thesis by (simp add: rtl_ok_seed)
  next
    case (PInt n)
    then show ?thesis by (simp add: rtl_ok_seed)
  next
    case (PList xs)
    from less.prems PList have wf: "well_formed (PList xs)" by simp
    then have odd: "odd (length xs)" by (rule wf_chain_odd)
    define n where "n = (length xs + 1) div 2"
    from odd have len: "length xs = 2 * n - 1" "0 < n" by (auto simp: n_def elim: oddE)
    have ih: "rtl_ok m (xs ! (2 * k))" if "2 * k < length xs" for k
    proof -
      from that have "2 * k \<in> set (child_indices (PList xs))" by (simp only: child_indices_chain_iff) simp
      from IH [unfolded PList, OF this] show ?thesis by simp
    qed
    have c: "n = 0 \<or> (0::int) = right_offset (PList xs) (2 * (n - 1))"
      by (rule disjI2, rule sym, rule right_offset_chain_last) (use len in linarith)
    from len have lt: "2 * n \<le> length xs + 1" by simp
    from len have ieq: "int (length xs) - 1 = 2 * int n - 2" by (simp add: of_nat_diff)
    have "zip_element_right_to_left_iterator (PList xs) m = rtl_chain_loop xs m (2 * int n - 2) 0"
      by (simp only: zip_element_right_to_left_iterator.simps ieq)
    also note rtl_chain_loop_wf [OF wf ih lt c]
    also have "(within m (rev (concat (map (\<lambda>j. shift (right_offset (PList xs) (2 * j)) (rdists (xs ! (2 * j))))
                         [0..<n]))), None) = (within m (rev (rdists (PList xs))), None)"
      by (simp only: rdists_chain n_def)
    finally have "zip_element_right_to_left_iterator (PList xs) m = (within m (rev (rdists (PList xs))), None)" .
    with PList show ?thesis by (simp add: rtl_ok_container)
  next
    case (PTuple xs)
    from less.prems PTuple have wf: "well_formed (PTuple xs)" by simp
    then have ne: "xs \<noteq> []" by (simp add: wf_snarl_boundary)
    have ih: "rtl_ok m (child (PTuple xs) i)" if "i < length xs - 1" for i
      using IH [unfolded PTuple, of i] that by simp
    from ne have ieq: "int (length xs) - 2 = int (length xs - 1) - 1"
      by (cases xs) simp_all
    have "zip_element_right_to_left_iterator (PTuple xs) m = rtl_snarl_loop xs m (int (length xs - 1) - 1)"
      by (simp only: zip_element_right_to_left_iterator.simps ieq)
    also note rtl_snarl_loop_wf [OF wf ih order_refl]
    also have "(within m (rev (concat (map (\<lambda>i. shift (right_offset (PTuple xs) i) (rdists (child (PTuple xs) i)))
                         [0..<length xs - 1]))), None) = (within m (rev (rdists (PTuple xs))), None)"
      by (simp only: rdists_snarl)
    finally have "zip_element_right_to_left_iterator (PTuple xs) m = (within m (rev (rdists (PTuple xs))), None)" .
    with PTuple show ?thesis by (simp add: rtl_ok_container)
  qed
qed

lemma rtl_wf_ok: "well_formed e \<Longrightarrow> rtl_ok m e"
  by (simp add: rtl_wf_both)

lemma rtl_wf_container:
  "well_formed e \<Longrightarrow> \<not> is_seed e \<Longrightarrow>
   zip_element_right_to_left_iterator e m = (within m (rev (rdists e)), None)"
  by (simp add: rtl_wf_both)

lemma rtl_wf_nonneg:
  assumes "well_formed e" and "0 \<le> m"
  shows "zip_element_right_to_left_iterator e m = (within m (rev (rdists e)), None)"
proof (cases "is_seed e")
  case True
  with assms(2) show ?thesis by (cases e) (simp_all add: rdists_def within_def)
next
  case False
  with assms(1) show ?thesis by (rule rtl_wf_container)
qed

lemma for_each_map: "for_each (\<lambda>x. Inr (Some (g x))) ys st = (map g ys, st)"
  by (induction ys) auto

lemma for_each_extend:
  "for_each (\<lambda>(seed, contained_elements). Inr (Some (seed, contained_elements @ [e, PInt (int i)]))) ys st
   = (extend e i ys, st)"
  by (induction ys) (auto simp: extend_def)

lemma for_each_extend2:
  "for_each (\<lambda>(seed, contained_elements). Inr (Some (seed, contained_elements @ [e, PInt (2 * int k)]))) ys st
   = (extend e (2 * k) ys, st)"
  using for_each_extend [of e "2 * k" ys st] by simp

lemma lpaths_container:
  assumes "\<not> is_seed e"
  shows "lpaths e = concat (map (\<lambda>i. extend e i (lpaths (child e i))) (child_indices e))"
proof -
  have "map (\<lambda>p. (seed_at e p, containment_path e p)) (map ((#) i) ps) =
        extend e i (map (\<lambda>p. (seed_at (child e i) p, containment_path (child e i) p)) ps)" for i ps
    by (simp add: extend_def)
  then show ?thesis
    unfolding lpaths_def positions_container [OF assms] map_concat
    by (simp add: comp_def)
qed

lemma ltr_snarl_loop_wf:
  assumes wf: "well_formed (PTuple xs)"
    and IH: "\<And>i. i < length xs - 1 \<Longrightarrow>
               zip_element_left_to_right_iterator (child (PTuple xs) i) = (lpaths (child (PTuple xs) i), None)"
  shows "i \<le> length xs - 1 \<Longrightarrow> ltr_snarl_loop xs i =
    (concat (map (\<lambda>j. extend (PTuple xs) j (lpaths (child (PTuple xs) j))) [i..<length xs - 1]), None)"
proof (induction "length xs - 1 - i" arbitrary: i)
  case 0
  then have "i = length xs - 1" by simp
  then have "\<not> int i < int (length xs) - 1" by linarith
  then have "ltr_snarl_loop xs i = ([], None)" by (subst ltr_snarl_loop.simps) simp
  with \<open>i = length xs - 1\<close> show ?case by simp
next
  case (Suc d)
  then have i: "i < length xs - 1" and d: "d = length xs - 1 - (i + 1)" and le: "i + 1 \<le> length xs - 1"
    by simp_all
  note g = wf_snarl_getitem [OF wf i]
  from i have c: "int i < int (length xs) - 1" by linarith
  from i have u: "[i..<length xs - 1] = i # [i + 1..<length xs - 1]" by (simp add: upt_conv_Cons)
  show ?case
    unfolding ltr_snarl_loop.simps [of xs i] u
    using c g(1,2) IH [OF i] Suc.hyps(1) [OF d le]
    by (simp add: for_each_extend del: getitem.simps)
qed

lemma ltr_chain_loop_wf:
  assumes wf: "well_formed (PList xs)"
    and IH: "\<And>k. 2 * k < length xs \<Longrightarrow>
               zip_element_left_to_right_iterator (xs ! (2 * k)) = (lpaths (xs ! (2 * k)), None)"
  shows "k \<le> (length xs + 1) div 2 \<Longrightarrow> ltr_chain_loop xs (2 * k) =
    (concat (map (\<lambda>j. extend (PList xs) (2 * j) (lpaths (xs ! (2 * j)))) [k..<(length xs + 1) div 2]), None)"
proof (induction "(length xs + 1) div 2 - k" arbitrary: k)
  case 0
  then have "k = (length xs + 1) div 2" by simp
  then have "\<not> 2 * k < length xs" by linarith
  with 0 show ?case by (simp add: ltr_chain_loop.simps [of xs "2 * k"])
next
  case (Suc d)
  then have k: "k < (length xs + 1) div 2" and d: "d = (length xs + 1) div 2 - (k + 1)"
    and le: "k + 1 \<le> (length xs + 1) div 2"
    by simp_all
  from k have lt: "2 * k < length xs" by linarith
  note g = wf_chain_getitem [OF wf lt]
  from k have u: "[k..<(length xs + 1) div 2] = k # [k + 1..<(length xs + 1) div 2]"
    by (simp add: upt_conv_Cons)
  have s: "2 * k + 2 = 2 * (k + 1)" by simp
  from g(1) have g1: "getitem (PList xs) (int (2 * k)) = Inr (xs ! (2 * k))" by simp
  show ?case
    unfolding ltr_chain_loop.simps [of xs "2 * k"] u s
    using lt g1 IH [OF lt] Suc.hyps(1) [OF d le]
    by (simp add: for_each_extend2 del: getitem.simps)
qed

lemma ltr_wf: "well_formed e \<Longrightarrow> zip_element_left_to_right_iterator e = (lpaths e, None)"
proof (induction e rule: measure_induct_rule [of size])
  case (less e)
  have IH: "zip_element_left_to_right_iterator (child e i) = (lpaths (child e i), None)"
    if "i \<in> set (child_indices e)" for i
    using less.IH [OF child_size [OF that] wf_child [OF less.prems that]] .
  show ?case
  proof (cases e)
    case (PStr s)
    then show ?thesis by (simp add: lpaths_def)
  next
    case (PInt n)
    then show ?thesis by (simp add: lpaths_def)
  next
    case (PList xs)
    from less.prems PList have wf: "well_formed (PList xs)" by simp
    have ih: "zip_element_left_to_right_iterator (xs ! (2 * k)) = (lpaths (xs ! (2 * k)), None)"
      if "2 * k < length xs" for k
    proof -
      from that have "2 * k \<in> set (child_indices (PList xs))" by (simp only: child_indices_chain_iff) simp
      from IH [unfolded PList, OF this] show ?thesis by simp
    qed
    from ltr_chain_loop_wf [OF wf ih, of 0]
    have "zip_element_left_to_right_iterator (PList xs) = (lpaths (PList xs), None)"
      by (simp add: lpaths_container comp_def)
    with PList show ?thesis by simp
  next
    case (PTuple xs)
    from less.prems PTuple have wf: "well_formed (PTuple xs)" by simp
    have ih: "zip_element_left_to_right_iterator (child (PTuple xs) i) = (lpaths (child (PTuple xs) i), None)"
      if "i < length xs - 1" for i
      using IH [unfolded PTuple, of i] that by simp
    from ltr_snarl_loop_wf [OF wf ih, of 0]
    have "zip_element_left_to_right_iterator (PTuple xs) = (lpaths (PTuple xs), None)"
      by (simp add: lpaths_container)
    with PTuple show ?thesis by simp
  qed
qed

lemma wf_snarl_entry_dist:
  assumes "well_formed (PTuple xs)" and "j < length xs - 1" and "l \<le> j"
  shows "getitem (xs ! j) (int l) = Inr (PInt (the_int (items_of (xs ! j) ! l)))"
    and "0 \<le> the_int (items_of (xs ! j) ! l)"
proof -
  from wf_snarl_entry [OF assms(1,2)] obtain ys where
    ys: "xs ! j = PTuple ys" "length ys = j + 2" "\<forall>l\<le>j. \<exists>n\<ge>0. ys ! l = PInt n"
    by blast
  from ys(3) assms(3) obtain n where n: "0 \<le> n" "ys ! l = PInt n" by blast
  from ys(2) assms(3) have "l < length ys" by simp
  then have "seq_get ys (int l) = Inr (ys ! l)" by (rule seq_get_nat)
  with ys n show "getitem (xs ! j) (int l) = Inr (PInt (the_int (items_of (xs ! j) ! l)))" by simp
  from ys n show "0 \<le> the_int (items_of (xs ! j) ! l)" by simp
qed

lemma shift_rdists_ge:
  assumes "well_formed e" and "y \<in> set (shift c (rdists e))"
  shows "c \<le> snd y"
  using assms(2) by (rule shift_ge) (rule rdists_nonneg [OF assms(1)])

lemma reach_snarl_loop_wf:
  assumes wf: "well_formed (PTuple xs)" and j: "j < length xs - 1" and d1: "0 \<le> d1"
  shows "k \<le> j \<Longrightarrow> reach_snarl_loop (PTuple xs) (int j) m d1 (int k - 1) =
    (within m (rev (concat (map (\<lambda>l. shift (gap (PTuple xs) l j + d1) (rdists (child (PTuple xs) l)))
                         [0..<k]))), None)"
proof (induction k)
  case 0
  show ?case by (simp add: reach_snarl_loop.simps)
next
  case (Suc k)
  then have kj: "k < j" "k \<le> j" "Suc k \<le> j" by simp_all
  with j have kl: "k < length xs - 1" by simp
  note g = wf_snarl_getitem [OF wf kl]
  note gj = wf_snarl_getitem(1) [OF wf j]
  note e = wf_snarl_entry_dist [OF wf j kj(3)]
  have i_eq: "int (Suc k) - 1 = int k" by simp
  have gp: "gap (PTuple xs) k j = the_int (items_of (xs ! j) ! Suc k)" by simp
  have c0: "0 \<le> gap (PTuple xs) k j + d1" using e(2) d1 by simp
  from e(1) have e1: "getitem (xs ! j) (int k + 1) = Inr (PInt (gap (PTuple xs) k j))"
    by (simp add: add.commute)
  have F: "(\<lambda>(seed, nested_distance).
              bind_err (getitem (PTuple xs) (int j)) (\<lambda>ej.
              bind_err (getitem ej (int k + 1)) (\<lambda>x.
              bind_err (py_add nested_distance x) (\<lambda>s.
              yield_if m seed (s + d1))))) =
           (\<lambda>(s, nd). yield_if m s (nd + (gap (PTuple xs) k j + d1)))"
    using gj e1 by (simp add: bind_err_def fun_eq_iff add.assoc del: getitem.simps gap.simps)
  have first: "bind_err (getitem (PTuple xs) (int k)) (\<lambda>entry. getitem entry (-1)) = Inr (child (PTuple xs) k)"
    using g(1,2) by (simp add: bind_err_def del: getitem.simps child.simps)
  from Suc.IH [OF kj(2)] have rec: "reach_snarl_loop (PTuple xs) (int j) m d1 (int k - 1) =
    (within m (rev (concat (map (\<lambda>l. shift (gap (PTuple xs) l j + d1) (rdists (child (PTuple xs) l)))
                         [0..<k]))), None)" .
  have "reach_snarl_loop (PTuple xs) (int j) m d1 (int (Suc k) - 1) =
        gen_then (case zip_element_right_to_left_iterator (child (PTuple xs) k) m of
                    (ys, st) \<Rightarrow> for_each (\<lambda>(s, nd). yield_if m s (nd + (gap (PTuple xs) k j + d1))) ys st)
                 (reach_snarl_loop (PTuple xs) (int j) m d1 (int k - 1))"
    unfolding i_eq reach_snarl_loop.simps [of "PTuple xs" "int j" m d1 "int k"] first F
    by simp
  also have "\<dots> = (within m (shift (gap (PTuple xs) k j + d1) (rev (rdists (child (PTuple xs) k))))
                   @ within m (rev (concat (map (\<lambda>l. shift (gap (PTuple xs) l j + d1) (rdists (child (PTuple xs) l)))
                         [0..<k]))), None)"
    unfolding rtl_okD [OF rtl_wf_ok [OF g(4)] c0] rec by simp
  finally show ?case by (simp add: shift_rev del: gap.simps child.simps)
qed

lemma reach_snarl_step_wf:
  assumes wf: "well_formed (PTuple xs)" and j: "j < length xs - 1" and d1: "0 \<le> d1"
  shows "reach_snarl_step (PTuple xs) (int j) m d1 =
    (within m (rev (concat (map (\<lambda>l. shift (gap (PTuple xs) l j + d1) (rdists (child (PTuple xs) l)))
                         [0..<j]))),
     if d1 + left_offset (PTuple xs) j > m then Return else Continue (d1 + left_offset (PTuple xs) j))"
proof -
  note gj = wf_snarl_getitem(1) [OF wf j]
  from wf_snarl_entry_dist(1) [OF wf j, of 0]
  have e: "getitem (xs ! j) 0 = Inr (PInt (left_offset (PTuple xs) j))" by simp
  have b: "bind_err (getitem (PTuple xs) (int j)) (\<lambda>ej. bind_err (getitem ej 0) (py_add d1)) =
           Inr (d1 + left_offset (PTuple xs) j)"
    using gj e by (simp add: bind_err_def del: getitem.simps left_offset.simps)
  show ?thesis
    unfolding reach_snarl_step_def reach_snarl_loop_wf [OF wf j d1 order_refl] b
    by simp
qed

lemma wf_chain_token:
  assumes "well_formed (PList xs)" and "2 * k + 1 < length xs"
  shows "getitem (PList xs) (2 * int k + 1) = Inr (PInt (the_int (xs ! (2 * k + 1))))"
    and "0 \<le> the_int (xs ! (2 * k + 1))"
proof -
  have odd: "odd (2 * k + 1)" by simp
  from wf_chain_dist [OF assms(1) assms(2) odd] obtain n where n: "0 \<le> n" "xs ! (2 * k + 1) = PInt n"
    by blast
  from assms(2) have "seq_get xs (int (2 * k + 1)) = Inr (xs ! (2 * k + 1))" by (rule seq_get_nat)
  moreover have "int (2 * k + 1) = 2 * int k + 1" by simp
  ultimately have "seq_get xs (2 * int k + 1) = Inr (xs ! (2 * k + 1))" by (simp only:)
  then show "getitem (PList xs) (2 * int k + 1) = Inr (PInt (the_int (xs ! (2 * k + 1))))"
    using n by (simp only: getitem.simps the_int.simps)
  from n show "0 \<le> the_int (xs ! (2 * k + 1))" by simp
qed

lemma chain_width_nonneg:
  assumes "well_formed (PList xs)" and "2 * l + 1 < length xs"
  shows "0 \<le> chain_width xs l"
proof -
  from assms(2) have "2 * l < length xs" by simp
  from wf_chain_getitem(4) [OF assms(1) this] wf_chain_token(2) [OF assms]
  show ?thesis by (simp add: chain_width_def)
qed

lemma left_offset_chain: "left_offset (PList xs) (2 * k) = sum_list (map (chain_width xs) [0..<k])"
  by (simp add: chain_width_def [abs_def])

lemma gap_chain:
  "gap (PList xs) (2 * j) (2 * k) = the_int (xs ! (2 * j + 1)) + sum_list (map (chain_width xs) [j + 1..<k])"
  by (simp add: chain_width_def [abs_def])

lemma sum_widths_step: "j < k \<Longrightarrow>
  sum_list (map (chain_width xs) [j..<k]) = chain_width xs j + sum_list (map (chain_width xs) [j + 1..<k])"
  by (simp add: upt_conv_Cons)

lemma sum_widths_mono:
  assumes wf: "well_formed (PList xs)" and k: "2 * k < length xs" and ab: "a \<le> b"
  shows "sum_list (map (chain_width xs) [b..<k]) \<le> sum_list (map (chain_width xs) [a..<k])"
  using ab
proof (induction "b - a" arbitrary: a)
  case 0
  then show ?case by simp
next
  case (Suc d)
  then have a: "a < b" "Suc a \<le> b" "d = b - Suc a" by simp_all
  show ?case
  proof (cases "a < k")
    case True
    with k have "2 * a + 1 < length xs" by simp
    from chain_width_nonneg [OF wf this] sum_widths_step [OF True, of xs] Suc.hyps(1) [OF a(3) a(2)]
    show ?thesis by simp
  next
    case False
    with a show ?thesis by simp
  qed
qed

lemma reach_chain_loop_wf:
  assumes wf: "well_formed (PList xs)" and ki: "2 * ki < length xs" and d1: "0 \<le> d1"
  shows "k \<le> ki \<Longrightarrow> c = d1 + sum_list (map (chain_width xs) [k..<ki]) \<Longrightarrow>
    (\<exists>oc. reach_chain_loop (PList xs) m (2 * int k - 2) c =
      (within m (rev (concat (map (\<lambda>j. shift (gap (PList xs) (2 * j) (2 * ki) + d1) (rdists (xs ! (2 * j))))
                          [0..<k]))), oc) \<and>
      (oc = Continue (d1 + left_offset (PList xs) (2 * ki)) \<or>
       oc = Return \<and> m < d1 + left_offset (PList xs) (2 * ki)))"
proof (induction k arbitrary: c)
  case 0
  then show ?case by (simp add: reach_chain_loop.simps left_offset_chain del: left_offset.simps)
next
  case (Suc k)
  then have k: "k < ki" "k \<le> ki" and c: "c = d1 + sum_list (map (chain_width xs) [Suc k..<ki])"
    by simp_all
  from k ki have lt: "2 * k < length xs" and lt1: "2 * k + 1 < length xs" by simp_all
  note g = wf_chain_getitem [OF wf lt]
  note t = wf_chain_token [OF wf lt1]
  define L where "L = (\<lambda>j. shift (gap (PList xs) (2 * j) (2 * ki) + d1) (rdists (xs ! (2 * j))))"
  define C where "C = (\<lambda>k. d1 + sum_list (map (chain_width xs) [k..<ki]))"
  define dist1 where "dist1 = c + the_int (xs ! (2 * k + 1))"
  have Cmono: "C b \<le> C a" if "a \<le> b" for a b
    using sum_widths_mono [OF wf ki that] by (simp add: C_def)
  have C0: "C 0 = d1 + left_offset (PList xs) (2 * ki)"
    by (simp add: C_def left_offset_chain del: left_offset.simps)
  have Cstep: "C k = chain_width xs k + C (Suc k)"
    using sum_widths_step [OF k(1), of xs] by (simp add: C_def)
  have dist1_eq: "dist1 = gap (PList xs) (2 * k) (2 * ki) + d1"
    by (simp add: dist1_def c gap_chain del: gap.simps)
  have dist1_C: "dist1 + snarl_min (xs ! (2 * k)) = C k"
    unfolding Cstep by (simp add: dist1_def c C_def chain_width_def)
  have dist1_le: "dist1 \<le> C k" using dist1_C g(4) by simp
  have cc: "0 \<le> c"
  proof -
    from k have "C ki \<le> C (Suc k)" by (intro Cmono) simp
    moreover have "C ki = d1" by (simp add: C_def)
    moreover have "c = C (Suc k)" by (simp add: c C_def)
    ultimately show ?thesis using d1 by simp
  qed
  have dist1_0: "0 \<le> dist1" using cc t(2) by (simp add: dist1_def)
  have Lge: "C k \<le> snd y" if "j < k" "y \<in> set (L j)" for j y
  proof -
    from that k ki have ltj: "2 * j < length xs" "2 * j + 1 < length xs" by simp_all
    from that(2) have "gap (PList xs) (2 * j) (2 * ki) + d1 \<le> snd y"
      unfolding L_def by (rule shift_rdists_ge [OF wf_chain_getitem(2) [OF wf ltj(1)]])
    moreover have "gap (PList xs) (2 * j) (2 * ki) + d1 = the_int (xs ! (2 * j + 1)) + C (Suc j)"
      by (simp add: gap_chain C_def del: gap.simps)
    moreover have "0 \<le> the_int (xs ! (2 * j + 1))" by (rule wf_chain_token(2) [OF wf ltj(2)])
    moreover from that(1) have "C k \<le> C (Suc j)" by (intro Cmono) simp
    ultimately show ?thesis by linarith
  qed
  have rest_empty: "within m (rev (concat (map L [0..<k]))) = []" if "m < C k"
  proof (rule within_all_above)
    fix y assume "y \<in> set (rev (concat (map L [0..<k])))"
    then obtain j where "j < k" "y \<in> set (L j)" by auto
    from Lge [OF this] that show "m < snd y" by simp
  qed
  have i_eq: "2 * int (Suc k) - 2 = 2 * int k" by simp
  have tok: "bind_err (getitem (PList xs) (2 * int k + 1)) (py_add c) = Inr dist1"
    using t(1) by (simp add: bind_err_def dist1_def del: getitem.simps)
  show ?case
  proof (cases "dist1 > m")
    case True
    have "m < snd y" if "y \<in> set (L k)" for y
    proof -
      from that have "dist1 \<le> snd y"
        unfolding L_def dist1_eq by (rule shift_rdists_ge [OF g(2)])
      with True show ?thesis by simp
    qed
    then have "within m (L k) = []" by (rule within_all_above)
    moreover from True dist1_le have mk: "m < C k" by simp
    note rest_empty [OF mk]
    moreover from mk Cmono [of 0 k] C0 have "m < d1 + left_offset (PList xs) (2 * ki)" by simp
    moreover have "reach_chain_loop (PList xs) m (2 * int (Suc k) - 2) c = ([], Return)"
      unfolding i_eq reach_chain_loop.simps [of "PList xs" m "2 * int k" c] tok
      using True by simp
    ultimately show ?thesis by (simp add: L_def within_rev del: left_offset.simps gap.simps)
  next
    case False
    have first: "(case zip_element_right_to_left_iterator (xs ! (2 * k)) m of
                  (ys, st) \<Rightarrow> for_each (\<lambda>(s, nd). yield_if m s (nd + dist1)) ys st) =
               (within m (shift dist1 (rev (rdists (xs ! (2 * k))))), None)"
      by (rule rtl_okD [OF rtl_wf_ok [OF g(2)] dist1_0])
    have fk: "within m (shift dist1 (rev (rdists (xs ! (2 * k))))) = within m (rev (L k))"
      by (simp add: L_def dist1_eq shift_rev del: gap.simps)
    show ?thesis
    proof (cases "C k > m")
      case True
      from True Cmono [of 0 k] C0 have "m < d1 + left_offset (PList xs) (2 * ki)" by simp
      moreover have "reach_chain_loop (PList xs) m (2 * int (Suc k) - 2) c =
                     (within m (rev (L k)), Return)"
        unfolding i_eq reach_chain_loop.simps [of "PList xs" m "2 * int k" c] tok
        using False True g(1) first fk g(3) [of dist1] dist1_C
        by (simp del: getitem.simps)
      ultimately show ?thesis using rest_empty [OF True]
        by (simp add: L_def del: left_offset.simps gap.simps)
    next
      case Ck: False
      from Suc.IH [OF k(2), of "C k"] obtain oc where
        oc: "reach_chain_loop (PList xs) m (2 * int k - 2) (C k) = (within m (rev (concat (map L [0..<k]))), oc)"
            "oc = Continue (d1 + left_offset (PList xs) (2 * ki)) \<or>
             oc = Return \<and> m < d1 + left_offset (PList xs) (2 * ki)"
        by (auto simp: C_def L_def)
      have "reach_chain_loop (PList xs) m (2 * int (Suc k) - 2) c =
                     (within m (rev (L k)) @ within m (rev (concat (map L [0..<k]))), oc)"
        unfolding i_eq reach_chain_loop.simps [of "PList xs" m "2 * int k" c] tok
        using False Ck g(1) first fk g(3) [of dist1] dist1_C oc(1)
        by (simp del: getitem.simps)
      with oc(2) show ?thesis
        by (simp add: L_def del: left_offset.simps gap.simps)
    qed
  qed
qed

lemma left_offset_nonneg:
  assumes "well_formed e" and "i \<in> set (child_indices e)"
  shows "0 \<le> left_offset e i"
proof (cases e)
  case (PList xs)
  from assms(2) have "i \<in> set (child_indices (PList xs))" unfolding PList .
  then have i: "even i" "i < length xs" by (simp_all only: child_indices_chain_iff)
  then obtain k where k: "i = 2 * k" by (auto elim: evenE)
  have "0 \<le> chain_width xs l" if "l \<in> set [0..<k]" for l
  proof -
    from that k i have "2 * l + 1 < length xs" by simp
    with assms(1) show ?thesis unfolding PList by (rule chain_width_nonneg)
  qed
  then have "0 \<le> sum_list (map (chain_width xs) [0..<k])"
    by (intro sum_list_nonneg) auto
  with PList k show ?thesis by (simp only: left_offset_chain)
next
  case (PTuple xs)
  with assms show ?thesis using wf_snarl_entry_dist(2) [of xs i 0] by simp
qed simp_all

lemma gap_nonneg:
  assumes "well_formed e" and "i \<in> set (child_indices e)" and "l < i" and "l \<in> set (child_indices e)"
  shows "0 \<le> gap e l i"
proof (cases e)
  case (PList xs)
  from assms(2,4) have "i \<in> set (child_indices (PList xs))" "l \<in> set (child_indices (PList xs))"
    unfolding PList by simp_all
  then have i: "even i" "i < length xs" "even l" by (simp_all only: child_indices_chain_iff)
  from i(1) obtain k where k1: "i = 2 * k" by (auto elim: evenE)
  from i(3) obtain j where k2: "l = 2 * j" by (auto elim: evenE)
  note k = k1 k2
  with assms(3) have jk: "j < k" by simp
  have "0 \<le> chain_width xs a" if "a \<in> set [j + 1..<k]" for a
  proof -
    from that k i have "2 * a + 1 < length xs" by simp
    with assms(1) show ?thesis unfolding PList by (rule chain_width_nonneg)
  qed
  then have "0 \<le> sum_list (map (chain_width xs) [j + 1..<k])"
    by (intro sum_list_nonneg) auto
  moreover from jk k i have "2 * j + 1 < length xs" by simp
  with assms(1) have "0 \<le> the_int (xs ! (2 * j + 1))" unfolding PList by (rule wf_chain_token(2))
  ultimately show ?thesis using PList k by (simp only: gap_chain)
next
  case (PTuple xs)
  with assms show ?thesis using wf_snarl_entry_dist(2) [of xs i "l + 1"] by simp
qed simp_all

lemma dist_left_nonneg:
  "well_formed e \<Longrightarrow> p \<in> set (positions e) \<Longrightarrow> 0 \<le> dist_left e p"
proof (induction p arbitrary: e)
  case Nil
  show ?case by simp
next
  case (Cons i p)
  from Cons.prems(2) have i: "i \<in> set (child_indices e)" and p: "p \<in> set (positions (child e i))"
    by (simp_all add: positions_Cons_iff)
  from Cons.IH [OF wf_child [OF Cons.prems(1) i] p] left_offset_nonneg [OF Cons.prems(1) i]
  show ?case by simp
qed

lemma filter_less_evens: "k \<le> n \<Longrightarrow> filter (\<lambda>l. l < 2 * k) (map (\<lambda>k. 2 * k) [0..<n]) = map (\<lambda>k. 2 * k) [0..<k]"
proof (induction n)
  case 0
  then show ?case by simp
next
  case (Suc n)
  show ?case
  proof (cases "k = Suc n")
    case True
    then have "filter (\<lambda>l. l < 2 * k) (map (\<lambda>k. 2 * k) [0..<Suc n]) = map (\<lambda>k. 2 * k) [0..<Suc n]"
      by (intro filter_True) auto
    with True show ?thesis by simp
  next
    case False
    with Suc show ?thesis by simp
  qed
qed

lemma filter_less_upt: "j \<le> n \<Longrightarrow> filter (\<lambda>l. l < j) [0..<n] = [0..<j]"
proof (induction n)
  case 0
  then show ?case by simp
next
  case (Suc n)
  show ?case
  proof (cases "j = Suc n")
    case True
    then have "filter (\<lambda>l. l < j) [0..<Suc n] = [0..<Suc n]"
      by (intro filter_True) auto
    with True show ?thesis by simp
  next
    case False
    with Suc show ?thesis by simp
  qed
qed

lemma reach_step_wf:
  assumes wf: "well_formed e" and i: "i \<in> set (child_indices e)" and d1: "0 \<le> d1"
  shows "\<exists>oc. reach_step e (PInt (int i)) m d1 =
      (within m (rev (concat (map (\<lambda>l. shift (gap e l i + d1) (rdists (child e l)))
                          (filter (\<lambda>l. l < i) (child_indices e))))), oc) \<and>
      (oc = Continue (d1 + left_offset e i) \<or> oc = Return \<and> m < d1 + left_offset e i)"
proof (cases e)
  case (PList xs)
  from i have "i \<in> set (child_indices (PList xs))" unfolding PList .
  then have ie: "even i" "i < length xs" by (simp_all only: child_indices_chain_iff)
  then obtain ki where ki: "i = 2 * ki" by (auto elim: evenE)
  from ie ki have lt: "2 * ki < length xs" by simp
  then have le: "ki \<le> (length xs + 1) div 2" by linarith
  from wf PList have wfl: "well_formed (PList xs)" by simp
  have c: "d1 = d1 + sum_list (map (chain_width xs) [ki..<ki])" by simp
  from reach_chain_loop_wf [OF wfl lt d1 order_refl c, of m] obtain oc where
    oc: "reach_chain_loop (PList xs) m (2 * int ki - 2) d1 =
      (within m (rev (concat (map (\<lambda>j. shift (gap (PList xs) (2 * j) (2 * ki) + d1) (rdists (xs ! (2 * j))))
                          [0..<ki]))), oc)"
      "oc = Continue (d1 + left_offset (PList xs) (2 * ki)) \<or>
       oc = Return \<and> m < d1 + left_offset (PList xs) (2 * ki)"
    by blast
  have "reach_step (PList xs) (PInt (int (2 * ki))) m d1 = reach_chain_loop (PList xs) m (2 * int ki - 2) d1"
    by simp
  moreover have "concat (map (\<lambda>l. shift (gap (PList xs) l (2 * ki) + d1) (rdists (child (PList xs) l)))
                    (filter (\<lambda>l. l < 2 * ki) (child_indices (PList xs)))) =
                 concat (map (\<lambda>j. shift (gap (PList xs) (2 * j) (2 * ki) + d1) (rdists (xs ! (2 * j)))) [0..<ki])"
    unfolding child_indices.simps filter_less_evens [OF le]
    by (simp add: comp_def del: gap.simps)
  ultimately show ?thesis using oc unfolding PList ki by (simp only:) blast
next
  case (PTuple xs)
  from i PTuple have j: "i < length xs - 1" by simp
  then have le: "i \<le> length xs - 1" by simp
  from wf PTuple have wft: "well_formed (PTuple xs)" by simp
  have "reach_step (PTuple xs) (PInt (int i)) m d1 = reach_snarl_step (PTuple xs) (int i) m d1" by simp
  also note reach_snarl_step_wf [OF wft j d1]
  finally show ?thesis
    unfolding PTuple child_indices.simps filter_less_upt [OF le] by auto
next
  case (PStr s)
  with i show ?thesis by simp
next
  case (PInt n)
  with i show ?thesis by simp
qed

lemma reach_loop_append:
  "even (length A) \<Longrightarrow> reach_loop (A @ B) m d =
     (case reach_loop A m d of
        (ys, Continue d') \<Rightarrow> (ys @ fst (reach_loop B m d'), snd (reach_loop B m d'))
      | (ys, oc) \<Rightarrow> (ys, oc))"
proof (induction A m d rule: reach_loop.induct)
  case (1 m dist)
  show ?case by simp
next
  case (2 element m dist)
  then show ?case by simp
next
  case (3 element j rest m dist)
  then show ?case
    by (auto split: prod.splits outcome.splits)
qed

lemma containment_path_even: "even (length (containment_path e p))"
  by (induction p arbitrary: e) simp_all

lemma dists_to_Cons:
  "dists_to e (i # q) d0 =
     dists_to (child e i) q d0 @
     rev (concat (map (\<lambda>l. shift (gap e l i + (d0 + dist_left (child e i) q)) (rdists (child e l)))
                    (filter (\<lambda>l. l < i) (child_indices e))))"
proof -
  have a: "map (\<lambda>p. (seed_at e p, tree_distance e p (i # q) + d0)) (map ((#) i) bs) =
           map (\<lambda>p. (seed_at (child e i) p, tree_distance (child e i) p q + d0)) bs" for bs
    by simp
  have b: "map (\<lambda>p. (seed_at e p, tree_distance e p (i # q) + d0)) (map ((#) l) ps) =
           shift (gap e l i + (d0 + dist_left (child e i) q)) (map (\<lambda>p. (seed_at (child e l) p, dist_right (child e l) p)) ps)"
    if "l < i" for l ps
    using that by (simp add: shift_def)
  have c: "map (\<lambda>p. (seed_at e p, tree_distance e p (i # q) + d0))
             (concat (map (\<lambda>l. map ((#) l) (positions (child e l))) (filter (\<lambda>l. l < i) (child_indices e)))) =
           concat (map (\<lambda>l. shift (gap e l i + (d0 + dist_left (child e i) q)) (rdists (child e l)))
                    (filter (\<lambda>l. l < i) (child_indices e)))"
    unfolding map_concat map_map comp_def rdists_def
    by (rule arg_cong [where f = concat], rule map_cong [OF refl]) (simp add: shift_def add_ac)
  show ?thesis
    unfolding dists_to_def before.simps rev_append map_append rev_map [symmetric] a c
    by (simp add: rev_map)
qed

lemma reach_loop_wf:
  "well_formed e \<Longrightarrow> q \<in> set (positions e) \<Longrightarrow> 0 \<le> d0 \<Longrightarrow>
   \<exists>oc. reach_loop (containment_path e q) m d0 = (within m (dists_to e q d0), oc) \<and>
        (oc = Continue (d0 + dist_left e q) \<or> oc = Return \<and> m < d0 + dist_left e q)"
proof (induction q arbitrary: e)
  case Nil
  show ?case by (simp add: dists_to_def)
next
  case (Cons i q)
  from Cons.prems(2) have i: "i \<in> set (child_indices e)" and q: "q \<in> set (positions (child e i))"
    by (simp_all add: positions_Cons_iff)
  note wfc = wf_child [OF Cons.prems(1) i]
  define d1 where "d1 = d0 + dist_left (child e i) q"
  have d1: "0 \<le> d1" using dist_left_nonneg [OF wfc q] Cons.prems(3) by (simp add: d1_def)
  have lo: "0 \<le> left_offset e i" by (rule left_offset_nonneg [OF Cons.prems(1) i])
  define Y2 where "Y2 = rev (concat (map (\<lambda>l. shift (gap e l i + d1) (rdists (child e l)))
                    (filter (\<lambda>l. l < i) (child_indices e))))"
  have tgt: "within m (dists_to e (i # q) d0) = within m (dists_to (child e i) q d0) @ within m Y2"
    by (simp add: dists_to_Cons Y2_def d1_def)
  from Cons.IH [OF wfc q Cons.prems(3)] obtain oc1 where
    oc1: "reach_loop (containment_path (child e i) q) m d0 = (within m (dists_to (child e i) q d0), oc1)"
         "oc1 = Continue d1 \<or> oc1 = Return \<and> m < d1"
    unfolding d1_def by blast
  from reach_step_wf [OF Cons.prems(1) i d1, of m] obtain oc2 where
    oc2: "reach_step e (PInt (int i)) m d1 = (within m Y2, oc2)"
         "oc2 = Continue (d1 + left_offset e i) \<or> oc2 = Return \<and> m < d1 + left_offset e i"
    unfolding Y2_def within_rev by blast
  have app: "reach_loop (containment_path e (i # q)) m d0 =
     (case reach_loop (containment_path (child e i) q) m d0 of
        (ys, Continue d') \<Rightarrow> (ys @ fst (reach_loop [e, PInt (int i)] m d'), snd (reach_loop [e, PInt (int i)] m d'))
      | (ys, oc) \<Rightarrow> (ys, oc))"
    unfolding containment_path.simps
    by (rule reach_loop_append [OF containment_path_even])
  from oc1(2) show ?case
  proof
    assume c: "oc1 = Continue d1"
    have last: "reach_loop [e, PInt (int i)] m d1 = (within m Y2, oc2)"
      using oc2 by auto
    from app oc1(1) c last
    have "reach_loop (containment_path e (i # q)) m d0 = (within m (dists_to e (i # q) d0), oc2)"
      by (simp add: tgt)
    with oc2(2) show ?thesis by (simp add: d1_def add.assoc)
  next
    assume r: "oc1 = Return \<and> m < d1"
    have "m < snd y" if "y \<in> set Y2" for y
    proof -
      from that obtain l where l: "l < i" "l \<in> set (child_indices e)"
        "y \<in> set (shift (gap e l i + d1) (rdists (child e l)))"
        by (auto simp: Y2_def)
      from shift_rdists_ge [OF wf_child [OF Cons.prems(1) l(2)] l(3)]
        gap_nonneg [OF Cons.prems(1) i l(1,2)] r
      show ?thesis by simp
    qed
    then have "within m Y2 = []" by (rule within_all_above)
    with app oc1(1) r
    have "reach_loop (containment_path e (i # q)) m d0 = (within m (dists_to e (i # q) d0), Return)"
      by (simp add: tgt)
    moreover from r lo have "m < d0 + dist_left e (i # q)" by (simp add: d1_def)
    ultimately show ?thesis by simp
  qed
qed

lemma reachable_wf:
  assumes "well_formed e" and "q \<in> set (positions e)"
  shows "zip_reachable_iterator (containment_path e q) m = (within m (dists_to e q 0), None)"
proof -
  from reach_loop_wf [OF assms, of 0 m] obtain oc where
    "reach_loop (containment_path e q) m 0 = (within m (dists_to e q 0), oc)"
    "oc = Continue (0 + dist_left e q) \<or> oc = Return \<and> m < 0 + dist_left e q"
    by auto
  then show ?thesis by (auto simp: zip_reachable_iterator_def)
qed

lemma for_each_triple:
  "for_each (\<lambda>(element2, distance). Inr (Some (element, element2, distance))) ys st =
   (map (\<lambda>(s, d). (element, s, d)) ys, st)"
  by (induction ys) auto

lemma pairs_loop_wf:
  assumes "well_formed e"
  shows "set qs \<subseteq> set (positions e) \<Longrightarrow>
    pairs_loop (map (\<lambda>p. (seed_at e p, containment_path e p)) qs) None m =
    (concat (map (pairs_of e m) qs), None)"
proof (induction qs)
  case Nil
  show ?case by simp
next
  case (Cons q qs)
  then have q: "q \<in> set (positions e)" and qs: "set qs \<subseteq> set (positions e)" by simp_all
  from reachable_wf [OF assms q, of m] Cons.IH [OF qs]
  show ?case by (simp add: for_each_triple pairs_of_def)
qed

lemma pairs_wf:
  assumes "well_formed e"
  shows "zip_element_pairs_iterator e m = (concat (map (pairs_of e m) (positions e)), None)"
  using ltr_wf [OF assms] pairs_loop_wf [OF assms subset_refl, of m]
  by (simp add: zip_element_pairs_iterator_def lpaths_def)

lemma sorted_wrt_concat_map:
  "sorted_wrt (<) (ks :: nat list) \<Longrightarrow> (\<forall>i\<in>set ks. sorted_wrt R (f i)) \<Longrightarrow>
   (\<forall>i\<in>set ks. \<forall>j\<in>set ks. i < j \<longrightarrow> (\<forall>x\<in>set (f i). \<forall>y\<in>set (f j). R x y)) \<Longrightarrow>
   sorted_wrt R (concat (map f ks))"
proof (induction ks)
  case Nil
  show ?case by simp
next
  case (Cons a ks)
  then have "sorted_wrt R (concat (map f ks))" by simp
  moreover from Cons.prems have "sorted_wrt R (f a)" by simp
  moreover have "R x y" if "x \<in> set (f a)" "y \<in> set (concat (map f ks))" for x y
  proof -
    from that(2) obtain j where j: "j \<in> set ks" "y \<in> set (f j)" by auto
    with Cons.prems(1) have "a < j" by simp
    with Cons.prems(3) j that(1) show ?thesis by simp
  qed
  ultimately show ?case by (simp add: sorted_wrt_append)
qed

lemma child_indices_sorted: "sorted_wrt (<) (child_indices e)"
  by (cases e) (simp_all add: sorted_wrt_map)

lemma positions_sorted: "sorted_wrt (<) (positions e)"
proof (induction e rule: measure_induct_rule [of size])
  case (less e)
  show ?case
  proof (cases "is_seed e")
    case True
    then show ?thesis by (cases e) simp_all
  next
    case False
    have "sorted_wrt (<) (concat (map (\<lambda>i. map ((#) i) (positions (child e i))) (child_indices e)))"
    proof (rule sorted_wrt_concat_map [OF child_indices_sorted])
      show "\<forall>i\<in>set (child_indices e). sorted_wrt (<) (map ((#) i) (positions (child e i)))"
      proof
        fix i assume "i \<in> set (child_indices e)"
        from less.IH [OF child_size [OF this]]
        show "sorted_wrt (<) (map ((#) i) (positions (child e i)))"
          by (simp add: sorted_wrt_map)
      qed
    next
      show "\<forall>i\<in>set (child_indices e). \<forall>j\<in>set (child_indices e). i < j \<longrightarrow>
              (\<forall>x\<in>set (map ((#) i) (positions (child e i))).
               \<forall>y\<in>set (map ((#) j) (positions (child e j))). x < y)"
        by auto
    qed
    with False show ?thesis by (simp add: positions_container)
  qed
qed

lemma positions_distinct: "distinct (positions e)"
  using positions_sorted [of e] by (simp add: strict_sorted_iff)

lemma sorted_split:
  "sorted_wrt (<) (xs :: nat list) \<Longrightarrow> i \<in> set xs \<Longrightarrow>
   xs = filter (\<lambda>l. l < i) xs @ i # filter (\<lambda>l. i < l) xs"
proof (induction xs)
  case Nil
  then show ?case by simp
next
  case (Cons x xs)
  show ?case
  proof (cases "x = i")
    case True
    with Cons.prems(1) have "filter (\<lambda>l. l < i) xs = []" "filter (\<lambda>l. i < l) xs = xs"
      by (auto simp: filter_empty_conv intro: filter_True)
    with True show ?thesis by simp
  next
    case False
    with Cons.prems have "i \<in> set xs" "x < i" by auto
    with Cons show ?thesis by auto
  qed
qed

lemma positions_split:
  "q \<in> set (positions e) \<Longrightarrow> \<exists>after. positions e = before e q @ q # after"
proof (induction q arbitrary: e)
  case Nil
  then have "is_seed e" by (simp add: positions_Nil_iff)
  then show ?case by (cases e) simp_all
next
  case (Cons i q)
  from Cons.prems have i: "i \<in> set (child_indices e)" and q: "q \<in> set (positions (child e i))"
    by (simp_all add: positions_Cons_iff)
  from i have ns: "\<not> is_seed e" by (cases e) auto
  from Cons.IH [OF q] obtain after where a: "positions (child e i) = before (child e i) q @ q # after"
    by blast
  define f where "f = (\<lambda>l. map ((#) l) (positions (child e l)))"
  from sorted_split [OF child_indices_sorted i]
  have "concat (map f (child_indices e)) =
        concat (map f (filter (\<lambda>l. l < i) (child_indices e) @ i # filter (\<lambda>l. i < l) (child_indices e)))"
    by simp
  also have "\<dots> = concat (map f (filter (\<lambda>l. l < i) (child_indices e))) @ f i @
                   concat (map f (filter (\<lambda>l. i < l) (child_indices e)))"
    by simp
  also have "f i = map ((#) i) (before (child e i) q) @ (i # q) # map ((#) i) after"
    by (simp add: f_def a)
  finally have "positions e = before e (i # q) @ (i # q) #
                  (map ((#) i) after @ concat (map f (filter (\<lambda>l. i < l) (child_indices e))))"
    by (simp add: positions_container [OF ns] f_def)
  then show ?case by blast
qed

lemma before_eq_take:
  assumes "b < length (positions e)"
  shows "before e (positions e ! b) = take b (positions e)"
proof -
  from assms have "positions e ! b \<in> set (positions e)" by simp
  from positions_split [OF this] obtain after where
    a: "positions e = before e (positions e ! b) @ (positions e ! b) # after" by blast
  define n where "n = length (before e (positions e ! b))"
  from a have n: "n < length (positions e)" "positions e ! n = positions e ! b"
    unfolding n_def by (metis length_append length_Cons less_add_Suc1 add_Suc_right, metis nth_append_length)
  with positions_distinct [of e] assms have "n = b" by (simp add: nth_eq_iff_index_eq)
  with a show ?thesis unfolding n_def by (metis append_eq_conv_conj)
qed

section \<open>The claims on well-formed trees\<close>

lemma positions_iff_leaf: "p \<in> set (positions e) \<longleftrightarrow> leaf_position e p"
  by (induction p arbitrary: e) (simp_all add: positions_Nil_iff positions_Cons_iff)

text \<open>
  Claim C4.  On a well-formed element the left-to-right enumerator ends normally and yields, for
  each seed position from left to right, the seed there with its containment path: the
  containers from the innermost to the outermost, each followed by the index of the child that
  holds the seed (the index in the alternating list for a chain, the number of the chain entry
  for a snarl).  The positions listed are exactly the positions of the seeds of the element, in
  strictly increasing lexicographic order, so every seed is yielded once.
\<close>

theorem left_to_right_enumerates_seeds:
  assumes "well_formed e"
  shows "zip_element_left_to_right_iterator e =
           (map (\<lambda>p. (seed_at e p, containment_path e p)) (positions e), None) \<and>
         (\<forall>p. p \<in> set (positions e) \<longleftrightarrow> leaf_position e p) \<and>
         sorted_wrt (<) (positions e) \<and> distinct (positions e)"
  using ltr_wf [OF assms] positions_sorted [of e] positions_distinct [of e]
  by (simp add: lpaths_def positions_iff_leaf)

theorem left_to_right_enumerates_seeds_witness:
  "well_formed example_tree \<and>
   positions example_tree =
     [[0], [2, 0, 0], [4], [6], [8, 0, 0], [8, 0, 2, 0, 0], [8, 0, 4], [8, 1, 0], [10], [12]] \<and>
   map fst (fst (zip_element_left_to_right_iterator example_tree)) =
     [PStr ''a'', PStr ''b'', PStr ''c'', PStr ''d'', PStr ''e'', PStr ''f'', PStr ''g'',
      PStr ''h'', PStr ''i'', PStr ''j''] \<and>
   snd (fst (zip_element_left_to_right_iterator example_tree) ! 7) = example_path_h \<and>
   zip_element_left_to_right_iterator example_tree =
     (map (\<lambda>p. (seed_at example_tree p, containment_path example_tree p)) (positions example_tree), None)"
proof -
  have wf: "well_formed example_tree" by code_simp
  have a: "positions example_tree =
     [[0], [2, 0, 0], [4], [6], [8, 0, 0], [8, 0, 2, 0, 0], [8, 0, 4], [8, 1, 0], [10], [12]]"
    by code_simp
  have b: "map fst (fst (zip_element_left_to_right_iterator example_tree)) =
     [PStr ''a'', PStr ''b'', PStr ''c'', PStr ''d'', PStr ''e'', PStr ''f'', PStr ''g'',
      PStr ''h'', PStr ''i'', PStr ''j'']"
    by code_simp
  have c: "snd (fst (zip_element_left_to_right_iterator example_tree) ! 7) = example_path_h"
    by code_simp
  from left_to_right_enumerates_seeds [OF wf] wf a b c show ?thesis by simp
qed

lemma rdists_seed: "is_seed e \<Longrightarrow> rdists e = [(e, 0)]"
  by (cases e) (simp_all add: rdists_def)

lemma concat_map_single: "concat (map (\<lambda>k. [f k]) ks) = map f ks"
  by (induction ks) simp_all

text \<open>
  Claim C7.  For a well-formed chain whose sub-elements are all seeds, the distances that the
  right-to-left walker yields are non-decreasing in the order in which they are yielded, for
  every bound.
\<close>

theorem chain_of_seeds_distances_monotone:
  assumes wf: "well_formed (PList xs)" and seeds: "\<forall>i<length xs. even i \<longrightarrow> is_seed (xs ! i)"
  shows "sorted (map snd (fst (zip_element_right_to_left_iterator (PList xs) m)))"
proof -
  define n where "n = (length xs + 1) div 2"
  define ro where "ro = (\<lambda>k. right_offset (PList xs) (2 * k))"
  have "map (\<lambda>k. shift (right_offset (PList xs) (2 * k)) (rdists (xs ! (2 * k)))) [0..<n] =
        map (\<lambda>k. [(xs ! (2 * k), ro k)]) [0..<n]"
  proof (rule map_cong [OF refl])
    fix k assume "k \<in> set [0..<n]"
    then have "2 * k < length xs" unfolding n_def by auto
    with seeds have "is_seed (xs ! (2 * k))" by simp
    then show "shift (right_offset (PList xs) (2 * k)) (rdists (xs ! (2 * k))) = [(xs ! (2 * k), ro k)]"
      by (simp add: rdists_seed shift_def ro_def)
  qed
  then have rd: "rdists (PList xs) = map (\<lambda>k. (xs ! (2 * k), ro k)) [0..<n]"
    unfolding rdists_chain n_def [symmetric] by (simp only: concat_map_single)
  have "sorted_wrt (\<lambda>i j. ro j \<le> ro i) [0..<n]"
  proof (rule sorted_wrt_mono_rel [of _ "(<)"])
    fix i j assume "i \<in> set [0..<n]" "j \<in> set [0..<n]" "i < j"
    then have "2 * j < length xs" "i \<le> j" unfolding n_def by auto
    from right_offset_chain_mono [OF wf this] show "ro j \<le> ro i" by (simp add: ro_def)
  qed simp
  then have "sorted (rev (map ro [0..<n]))"
    by (simp add: sorted_wrt_rev sorted_wrt_map)
  then have "sorted (map snd (rev (rdists (PList xs))))"
    by (simp add: rd rev_map comp_def)
  then have "sorted (map snd (within m (rev (rdists (PList xs)))))"
    unfolding within_def by (rule sorted_filter)
  with rtl_wf_container [OF wf, of m] show ?thesis by simp
qed

theorem chain_of_seeds_distances_monotone_witness:
  "well_formed (PList [PStr ''a'', PInt 2, PStr ''b'', PInt 0, PStr ''c'', PInt 3, PStr ''d'']) \<and>
   list_all (\<lambda>i. even i \<longrightarrow> is_seed ([PStr ''a'', PInt 2, PStr ''b'', PInt 0, PStr ''c'', PInt 3, PStr ''d''] ! i))
     [0..<7] \<and>
   map snd (fst (zip_element_right_to_left_iterator
     (PList [PStr ''a'', PInt 2, PStr ''b'', PInt 0, PStr ''c'', PInt 3, PStr ''d'']) 4)) = [0, 3, 3] \<and>
   sorted (map snd (fst (zip_element_right_to_left_iterator
     (PList [PStr ''a'', PInt 2, PStr ''b'', PInt 0, PStr ''c'', PInt 3, PStr ''d'']) 4)))"
proof -
  have wf: "well_formed (PList [PStr ''a'', PInt 2, PStr ''b'', PInt 0, PStr ''c'', PInt 3, PStr ''d''])"
    by code_simp
  have s: "list_all (\<lambda>i. even i \<longrightarrow> is_seed ([PStr ''a'', PInt 2, PStr ''b'', PInt 0, PStr ''c'', PInt 3, PStr ''d''] ! i))
     [0..<7]"
    by code_simp
  then have s': "\<forall>i<length [PStr ''a'', PInt 2, PStr ''b'', PInt 0, PStr ''c'', PInt 3, PStr ''d''].
      even i \<longrightarrow> is_seed ([PStr ''a'', PInt 2, PStr ''b'', PInt 0, PStr ''c'', PInt 3, PStr ''d''] ! i)"
    by (simp add: list_all_iff)
  have v: "map snd (fst (zip_element_right_to_left_iterator
     (PList [PStr ''a'', PInt 2, PStr ''b'', PInt 0, PStr ''c'', PInt 3, PStr ''d'']) 4)) = [0, 3, 3]"
    by code_simp
  from chain_of_seeds_distances_monotone [OF wf s', of 4] wf s v show ?thesis by simp
qed

lemma within_rev_map_filter:
  "(\<forall>p\<in>set ps. \<not> Q p \<longrightarrow> m < snd (F p)) \<Longrightarrow>
   within m (rev (map F ps)) = within m (rev (map F (filter Q ps)))"
  by (induction ps) (auto simp: within_def case_prod_beta)

lemma rtl_snarl_by_entries:
  assumes wf: "well_formed (PTuple ys)"
  shows "zip_element_right_to_left_iterator (PTuple ys) m =
    (concat (map (\<lambda>i. within m (shift (right_offset (PTuple ys) i)
                        (fst (zip_element_right_to_left_iterator (child (PTuple ys) i) m))))
               (rev [0..<length ys - 1])), None)"
proof -
  have "within m (rev (rdists (PTuple ys))) =
        concat (map (\<lambda>i. within m (rev (shift (right_offset (PTuple ys) i) (rdists (child (PTuple ys) i)))))
                 (rev [0..<length ys - 1]))"
    unfolding rdists_snarl rev_concat within_def filter_concat
    by (simp add: rev_map comp_def)
  also have "\<dots> = concat (map (\<lambda>i. within m (shift (right_offset (PTuple ys) i)
                        (fst (zip_element_right_to_left_iterator (child (PTuple ys) i) m))))
               (rev [0..<length ys - 1]))"
  proof (rule arg_cong [where f = concat], rule map_cong [OF refl])
    fix i assume "i \<in> set (rev [0..<length ys - 1])"
    then have i: "i < length ys - 1" by simp
    note g = wf_snarl_getitem [OF wf i]
    from g(3) have "\<not> is_seed (child (PTuple ys) i)" by auto
    from rtl_wf_container [OF g(4) this, of m]
    show "within m (rev (shift (right_offset (PTuple ys) i) (rdists (child (PTuple ys) i)))) =
          within m (shift (right_offset (PTuple ys) i)
                        (fst (zip_element_right_to_left_iterator (child (PTuple ys) i) m)))"
      using g(7) by (simp add: within_shift_within shift_rev del: right_offset.simps child.simps)
  qed
  finally show ?thesis using rtl_wf_container [OF wf, of m] by simp
qed

lemma rtl_chain_stops:
  assumes wf: "well_formed (PList xs)" and k: "0 < k" "2 * k < length xs"
    and m: "m < right_offset (PList xs) (2 * (k - 1))"
  shows "zip_element_right_to_left_iterator (PList xs) m =
    (filter (\<lambda>(s, d). d \<le> m)
       (rev (map (\<lambda>p. (seed_at (PList xs) p, dist_right (PList xs) p))
               (filter (\<lambda>p. 2 * k \<le> hd p) (positions (PList xs))))), None)"
proof -
  have "\<forall>p\<in>set (positions (PList xs)). \<not> 2 * k \<le> hd p \<longrightarrow>
          m < snd (seed_at (PList xs) p, dist_right (PList xs) p)"
  proof (intro ballI impI)
    fix p assume p: "p \<in> set (positions (PList xs))" and h: "\<not> 2 * k \<le> hd p"
    from p have "p \<noteq> []" by (metis positions_Nil_iff is_seed.simps(2))
    then obtain i p' where ip: "p = i # p'" by (cases p) simp_all
    with p have i: "i \<in> set (child_indices (PList xs))" and p': "p' \<in> set (positions (child (PList xs) i))"
      by (simp_all only: positions_Cons_iff)
    from i have ie: "even i" "i < length xs" by (simp_all only: child_indices_chain_iff)
    then obtain j where j: "i = 2 * j" by (auto elim: evenE)
    with h ip have jk: "j \<le> k - 1" by simp
    from k have "2 * (k - 1) < length xs" by simp
    from right_offset_chain_mono [OF wf this jk] m have "m < right_offset (PList xs) i"
      by (simp add: j)
    moreover from dist_right_nonneg [OF wf_child [OF wf i] p'] have "0 \<le> dist_right (child (PList xs) i) p'" .
    ultimately show "m < snd (seed_at (PList xs) p, dist_right (PList xs) p)"
      by (simp add: ip del: right_offset.simps child.simps)
  qed
  from within_rev_map_filter [OF this] rtl_wf_container [OF wf, of m]
  show ?thesis by (simp add: rdists_def within_def)
qed

lemma rtl_chain_loop_return:
  assumes "-1 < i" and "getitem (PList xs) i = Inr nested"
    and "add_snarl_min nested dist = Inr dist1"
    and "(if 0 < i then bind_err (getitem (PList xs) (i - 1)) (py_add dist1) else Inr dist1) = Inr dist2"
    and "m < dist2"
  shows "rtl_chain_loop xs m i dist =
    (case zip_element_right_to_left_iterator nested m of
       (items, st) \<Rightarrow> for_each (\<lambda>(seed, nested_distance). yield_if m seed (nested_distance + dist)) items st)"
proof -
  have g: "gen_then r ([], None) = r" for r :: "(pyval \<times> int) gen"
    by (cases r) (simp add: gen_then_def split: option.splits)
  show ?thesis
    unfolding rtl_chain_loop.simps [of xs m i dist]
    using assms by (simp add: g del: getitem.simps split del: if_split)
qed

lemma getitem_append_right:
  "j < length right \<Longrightarrow>
   getitem (PList (left @ PInt t # right)) (int (length left) + 1 + int j) = Inr (right ! j)"
proof -
  assume j: "j < length right"
  have "int (length left) + 1 + int j = int (length left + 1 + j)" by simp
  moreover from j have "length left + 1 + j < length (left @ PInt t # right)" by simp
  then have "seq_get (left @ PInt t # right) (int (length left + 1 + j)) =
             Inr ((left @ PInt t # right) ! (length left + 1 + j))" by (rule seq_get_nat)
  moreover have "(left @ PInt t # right) ! (length left + 1 + j) = right ! j"
    by (simp add: nth_append)
  ultimately show ?thesis by (simp only: getitem.simps)
qed

lemma getitem_append_token:
  "getitem (PList (left @ PInt t # right)) (int (length left)) = Inr (PInt t)"
proof -
  have "length left < length (left @ PInt t # right)" by simp
  then have "seq_get (left @ PInt t # right) (int (length left)) =
             Inr ((left @ PInt t # right) ! length left)" by (rule seq_get_nat)
  then show ?thesis by simp
qed

lemma rtl_chain_loop_prefix:
  assumes wf: "well_formed (PList right)"
    and m: "m < snarl_min (right ! 0) + right_offset (PList right) 0 + t"
  shows "2 * k < length right \<Longrightarrow>
    rtl_chain_loop (left @ PInt t # right) m (int (length left) + 1 + 2 * int k)
      (right_offset (PList right) (2 * k)) =
    (within m (rev (concat (map (\<lambda>j. shift (right_offset (PList right) (2 * j)) (rdists (right ! (2 * j))))
                         [0..<Suc k]))), None)"
proof (induction k)
  case 0
  then have lt: "2 * 0 < length right" by simp
  note g = wf_chain_getitem [OF wf lt]
  define i where "i = int (length left) + 1 + 2 * int 0"
  define c where "c = right_offset (PList right) (2 * 0)"
  define dist2 where "dist2 = c + snarl_min (right ! (2 * 0)) + t"
  have ipos: "-1 < i" "0 < i" by (simp_all add: i_def)
  have gi: "getitem (PList (left @ PInt t # right)) i = Inr (right ! (2 * 0))"
    unfolding i_def using getitem_append_right [of "2 * 0" right left t] lt by simp
  have gt: "bind_err (getitem (PList (left @ PInt t # right)) (i - 1)) (py_add (c + snarl_min (right ! (2 * 0)))) = Inr dist2"
    unfolding i_def dist2_def using getitem_append_token [of left t right]
    by (simp add: bind_err_def del: getitem.simps)
  have c0: "0 \<le> c" unfolding c_def
    using right_offset_nonneg [OF wf, of "2 * 0"] lt by (simp only: child_indices_chain_iff) simp
  have big: "m < dist2" using m by (simp add: dist2_def c_def)
  have first: "(case zip_element_right_to_left_iterator (right ! (2 * 0)) m of
                  (ys, st) \<Rightarrow> for_each (\<lambda>(s, nd). yield_if m s (nd + c)) ys st) =
               (within m (shift c (rev (rdists (right ! (2 * 0))))), None)"
    by (rule rtl_okD [OF rtl_wf_ok [OF g(2)] c0])
  have "rtl_chain_loop (left @ PInt t # right) m i c = (within m (shift c (rev (rdists (right ! (2 * 0))))), None)"
    unfolding rtl_chain_loop.simps [of "left @ PInt t # right" m i c]
    using ipos gi g(3) [of c] gt big first
    by (simp del: getitem.simps right_offset.simps)
  then show ?case by (simp add: i_def c_def shift_rev del: right_offset.simps)
next
  case (Suc k)
  then have lt: "2 * Suc k < length right" and ltk: "2 * k < length right" by simp_all
  note g = wf_chain_getitem [OF wf lt]
  define L where "L = (\<lambda>j. shift (right_offset (PList right) (2 * j)) (rdists (right ! (2 * j))))"
  define i where "i = int (length left) + 1 + 2 * int (Suc k)"
  define c where "c = right_offset (PList right) (2 * Suc k)"
  define dist2 where "dist2 = c + snarl_min (right ! (2 * Suc k)) + the_int (right ! (2 * Suc k - 1))"
  have ipos: "-1 < i" "0 < i" by (simp_all add: i_def)
  have gi: "getitem (PList (left @ PInt t # right)) i = Inr (right ! (2 * Suc k))"
    unfolding i_def using getitem_append_right [of "2 * Suc k" right left t] lt by simp
  from lt have lt1: "2 * Suc k - 1 < length right" and odd: "odd (2 * Suc k - 1)" by simp_all
  from wf_chain_dist [OF wf lt1 odd] obtain n where n: "0 \<le> n" "right ! (2 * Suc k - 1) = PInt n"
    by blast
  have "i - 1 = int (length left) + 1 + int (2 * Suc k - 1)" by (simp add: i_def)
  with getitem_append_right [of "2 * Suc k - 1" right left t] lt1
  have gk: "getitem (PList (left @ PInt t # right)) (i - 1) = Inr (right ! (2 * Suc k - 1))"
    by (simp only:)
  have gt: "bind_err (getitem (PList (left @ PInt t # right)) (i - 1)) (py_add (c + snarl_min (right ! (2 * Suc k)))) = Inr dist2"
  proof -
    from n(2) have n': "right ! Suc (2 * k) = PInt n" by simp
    show ?thesis unfolding gk by (simp add: bind_err_def dist2_def n')
  qed
  have c0: "0 \<le> c" unfolding c_def
    using right_offset_nonneg [OF wf, of "2 * Suc k"] lt by (simp only: child_indices_chain_iff) simp
  have d2: "dist2 = right_offset (PList right) (2 * k)"
    using right_offset_chain_step [of "Suc k" right] lt by (simp add: dist2_def c_def)
  have i2: "i - 2 = int (length left) + 1 + 2 * int k" by (simp add: i_def)
  have first: "(case zip_element_right_to_left_iterator (right ! (2 * Suc k)) m of
                  (ys, st) \<Rightarrow> for_each (\<lambda>(s, nd). yield_if m s (nd + c)) ys st) =
               (within m (shift c (rev (rdists (right ! (2 * Suc k))))), None)"
    by (rule rtl_okD [OF rtl_wf_ok [OF g(2)] c0])
  have rest: "(if dist2 > m then ([], None) else rtl_chain_loop (left @ PInt t # right) m (i - 2) dist2) =
              (within m (rev (concat (map L [0..<Suc k]))), None)"
  proof (cases "dist2 > m")
    case True
    have "m < snd y" if "y \<in> set (rev (concat (map L [0..<Suc k])))" for y
    proof -
      from that have "\<exists>j\<in>set [0..<Suc k]. y \<in> set (L j)" by simp
      then obtain j where "j \<in> set [0..<Suc k]" "y \<in> set (L j)" by blast
      then have j: "j \<le> k" "y \<in> set (L j)" by auto
      from j ltk have ltj: "2 * j < length right" by simp
      from j(2) have "right_offset (PList right) (2 * j) \<le> snd y"
        unfolding L_def by (rule shift_rdists_ge [OF wf_chain_getitem(2) [OF wf ltj]])
      moreover from right_offset_chain_mono [OF wf ltk j(1)]
      have "right_offset (PList right) (2 * k) \<le> right_offset (PList right) (2 * j)" .
      ultimately show ?thesis using True d2 by simp
    qed
    then have "within m (rev (concat (map L [0..<Suc k]))) = []" by (rule within_all_above)
    with True show ?thesis by simp
  next
    case False
    from Suc.IH [OF ltk] have "rtl_chain_loop (left @ PInt t # right) m (i - 2) dist2 =
       (within m (rev (concat (map L [0..<Suc k]))), None)"
      unfolding i2 d2 L_def .
    with False show ?thesis by simp
  qed
  have "rtl_chain_loop (left @ PInt t # right) m i c =
        gen_then (within m (shift c (rev (rdists (right ! (2 * Suc k))))), None)
          (if dist2 > m then ([], None) else rtl_chain_loop (left @ PInt t # right) m (i - 2) dist2)"
    unfolding rtl_chain_loop.simps [of "left @ PInt t # right" m i c]
    using ipos gi g(3) [of c] gt first
    by (simp del: getitem.simps right_offset.simps split del: if_split)
  also have "\<dots> = (within m (shift c (rev (rdists (right ! (2 * Suc k))))) @
                    within m (rev (concat (map L [0..<Suc k]))), None)"
    unfolding rest by simp
  finally show ?case
    by (simp add: L_def i_def c_def shift_rev del: right_offset.simps)
qed

lemma rtl_chain_ignores_left:
  assumes wf: "well_formed (PList right)"
    and m: "m < snarl_min (right ! 0) + right_offset (PList right) 0 + t"
  shows "zip_element_right_to_left_iterator (PList (left @ PInt t # right)) m =
         zip_element_right_to_left_iterator (PList right) m"
proof -
  from wf have odd: "odd (length right)" by (rule wf_chain_odd)
  define n where "n = (length right + 1) div 2"
  from odd have len: "length right = 2 * n - 1" "0 < n" by (auto simp: n_def elim: oddE)
  then have lt: "2 * (n - 1) < length right" by simp
  have ro: "right_offset (PList right) (2 * (n - 1)) = 0"
    by (rule right_offset_chain_last) (use len in linarith)
  from len have ieq: "int (length (left @ PInt t # right)) - 1 = int (length left) + 1 + 2 * int (n - 1)"
    by (simp add: of_nat_diff)
  from len have sn: "Suc (n - 1) = n" by simp
  have "zip_element_right_to_left_iterator (PList (left @ PInt t # right)) m =
        rtl_chain_loop (left @ PInt t # right) m (int (length left) + 1 + 2 * int (n - 1)) 0"
    by (simp only: zip_element_right_to_left_iterator.simps ieq)
  also have "\<dots> = (within m (rev (concat (map (\<lambda>j. shift (right_offset (PList right) (2 * j)) (rdists (right ! (2 * j))))
                         [0..<n]))), None)"
    using rtl_chain_loop_prefix [OF wf m lt, of left] unfolding ro sn .
  also have "\<dots> = (within m (rev (rdists (PList right))), None)"
    by (simp only: rdists_chain n_def)
  also have "\<dots> = zip_element_right_to_left_iterator (PList right) m"
    using rtl_wf_container [OF wf, of m] by simp
  finally show ?thesis .
qed

text \<open>
  Claim C5.  In the chain loop of the right-to-left walker, whatever the chain holds: when an
  iteration leaves the running distance above the bound, the loop ends there, and what it
  yields from that iteration on is what the sub-element of that iteration gives.  Hence, when
  the part \<open>right\<close> of a chain is well formed and the running distance after it and the
  distance \<open>t\<close> to its left exceeds the bound, the walker yields on the whole chain what it
  yields on \<open>right\<close> alone, whatever stands left of \<open>t\<close>: no seed of a sub-element further to
  the left is yielded, within the bound or not.  On a well-formed chain this means that the
  yields are those of the seeds at or right of index \<open>2 * k\<close> once the running distance
  \<open>right_offset (PList cs) (2 * (k - 1))\<close> exceeds the bound.  On a well-formed snarl every
  chain entry is tried, from the last to the first: the walker yields, for each chain entry
  \<open>i\<close>, every seed that the walker yields for the chain of that entry at a distance \<open>d\<close> with
  \<open>d\<close> plus entry \<open>i + 1\<close> of the boundary record within the bound, whatever the other entries
  hold.
\<close>

theorem rtl_chain_stops_snarl_tries_every_entry:
  "(-1 < i \<and> getitem (PList xs) i = Inr nested \<and> add_snarl_min nested dist = Inr dist_n \<and>
    (if 0 < i then bind_err (getitem (PList xs) (i - 1)) (py_add dist_n) else Inr dist_n) = Inr dist_g \<and>
    m < dist_g \<longrightarrow>
    rtl_chain_loop xs m i dist =
      (case zip_element_right_to_left_iterator nested m of
         (items, st) \<Rightarrow>
           for_each (\<lambda>(seed, nested_distance). yield_if m seed (nested_distance + dist)) items st)) \<and>
   (well_formed (PList right) \<and> m < snarl_min (right ! 0) + right_offset (PList right) 0 + t \<longrightarrow>
    zip_element_right_to_left_iterator (PList (left @ PInt t # right)) m =
    zip_element_right_to_left_iterator (PList right) m) \<and>
   (well_formed (PList cs) \<and> 0 < k \<and> 2 * k < length cs \<and>
      m < right_offset (PList cs) (2 * (k - 1)) \<longrightarrow>
    zip_element_right_to_left_iterator (PList cs) m =
      (filter (\<lambda>(s, d). d \<le> m)
         (rev (map (\<lambda>p. (seed_at (PList cs) p, dist_right (PList cs) p))
                 (filter (\<lambda>p. 2 * k \<le> hd p) (positions (PList cs))))), None)) \<and>
   (well_formed (PTuple ys) \<longrightarrow>
    zip_element_right_to_left_iterator (PTuple ys) m =
      (concat (map (\<lambda>i. filter (\<lambda>(s, d). d \<le> m)
                          (map (\<lambda>(s, d). (s, d + the_int (items_of (last ys) ! (i + 1))))
                             (fst (zip_element_right_to_left_iterator (child (PTuple ys) i) m))))
                 (rev [0..<length ys - 1])), None))"
proof (intro conjI impI)
  assume "-1 < i \<and> getitem (PList xs) i = Inr nested \<and> add_snarl_min nested dist = Inr dist_n \<and>
    (if 0 < i then bind_err (getitem (PList xs) (i - 1)) (py_add dist_n) else Inr dist_n) = Inr dist_g \<and>
    m < dist_g"
  then show "rtl_chain_loop xs m i dist =
      (case zip_element_right_to_left_iterator nested m of
         (items, st) \<Rightarrow>
           for_each (\<lambda>(seed, nested_distance). yield_if m seed (nested_distance + dist)) items st)"
    using rtl_chain_loop_return [of i xs nested dist dist_n dist_g m] by blast
next
  assume "well_formed (PList right) \<and> m < snarl_min (right ! 0) + right_offset (PList right) 0 + t"
  then show "zip_element_right_to_left_iterator (PList (left @ PInt t # right)) m =
    zip_element_right_to_left_iterator (PList right) m"
    using rtl_chain_ignores_left [of right m t left] by blast
next
  assume "well_formed (PList cs) \<and> 0 < k \<and> 2 * k < length cs \<and>
      m < right_offset (PList cs) (2 * (k - 1))"
  then show "zip_element_right_to_left_iterator (PList cs) m =
      (filter (\<lambda>(s, d). d \<le> m)
         (rev (map (\<lambda>p. (seed_at (PList cs) p, dist_right (PList cs) p))
                 (filter (\<lambda>p. 2 * k \<le> hd p) (positions (PList cs))))), None)"
    using rtl_chain_stops [of cs k m] by blast
next
  assume "well_formed (PTuple ys)"
  from rtl_snarl_by_entries [OF this, of m]
  show "zip_element_right_to_left_iterator (PTuple ys) m =
      (concat (map (\<lambda>i. filter (\<lambda>(s, d). d \<le> m)
                          (map (\<lambda>(s, d). (s, d + the_int (items_of (last ys) ! (i + 1))))
                             (fst (zip_element_right_to_left_iterator (child (PTuple ys) i) m))))
                 (rev [0..<length ys - 1])), None)"
    by (simp only: within_def shift_def right_offset.simps)
qed

theorem rtl_chain_stops_snarl_tries_every_entry_witness:
  "(-1 :: int) < 4 \<and>
   getitem (PList [PStr ''a'', PInt (-10), PStr ''b'', PInt 20, PStr ''c'']) 4 = Inr (PStr ''c'') \<and>
   add_snarl_min (PStr ''c'') 0 = Inr 0 \<and>
   (if 0 < (4 :: int)
    then bind_err (getitem (PList [PStr ''a'', PInt (-10), PStr ''b'', PInt 20, PStr ''c'']) (4 - 1)) (py_add 0)
    else Inr 0) = Inr 20 \<and>
   (15 :: int) < 20 \<and>
   rtl_chain_loop [PStr ''a'', PInt (-10), PStr ''b'', PInt 20, PStr ''c''] 15 4 0 =
     ([(PStr ''c'', 0)], None) \<and>
   well_formed (PList [PStr ''c'']) \<and>
   15 < snarl_min ([PStr ''c''] ! 0) + right_offset (PList [PStr ''c'']) 0 + 20 \<and>
   zip_element_right_to_left_iterator (PList ([PStr ''a'', PInt (-10), PStr ''b''] @ PInt 20 # [PStr ''c''])) 15 =
     ([(PStr ''c'', 0)], None) \<and>
   well_formed (PList [PStr ''a'', PInt 9, PStr ''b'', PInt 7, PStr ''c'']) \<and>
   (0::nat) < 1 \<and> 2 * 1 < length [PStr ''a'', PInt 9, PStr ''b'', PInt 7, PStr ''c''] \<and>
   15 < right_offset (PList [PStr ''a'', PInt 9, PStr ''b'', PInt 7, PStr ''c'']) (2 * (1 - 1)) \<and>
   filter (\<lambda>p. 2 * 1 \<le> hd p) (positions (PList [PStr ''a'', PInt 9, PStr ''b'', PInt 7, PStr ''c'']))
     = [[2], [4]] \<and>
   zip_element_right_to_left_iterator (PList [PStr ''a'', PInt 9, PStr ''b'', PInt 7, PStr ''c'']) 15 =
     ([(PStr ''c'', 0), (PStr ''b'', 7)], None) \<and>
   well_formed (PTuple example_snarl_entries) \<and>
   zip_element_right_to_left_iterator (PTuple example_snarl_entries) 15 =
     ([(PStr ''h'', 1), (PStr ''g'', 2), (PStr ''f'', 8), (PStr ''e'', 15)], None)"
proof -
  have a1: "(-1 :: int) < 4" by simp
  have a2: "getitem (PList [PStr ''a'', PInt (-10), PStr ''b'', PInt 20, PStr ''c'']) 4 = Inr (PStr ''c'')"
    by code_simp
  have a3: "add_snarl_min (PStr ''c'') 0 = Inr 0" by simp
  have a4: "(if 0 < (4 :: int)
    then bind_err (getitem (PList [PStr ''a'', PInt (-10), PStr ''b'', PInt 20, PStr ''c'']) (4 - 1)) (py_add 0)
    else Inr 0) = Inr 20"
    by code_simp
  have a5: "(15 :: int) < 20" by simp
  have a6: "(case zip_element_right_to_left_iterator (PStr ''c'') 15 of
         (items, st) \<Rightarrow>
           for_each (\<lambda>(seed, nested_distance). yield_if 15 seed (nested_distance + 0)) items st) =
        ([(PStr ''c'', 0)], None)"
    by code_simp
  have b1: "well_formed (PList [PStr ''c''])" by code_simp
  have b2: "15 < snarl_min ([PStr ''c''] ! 0) + right_offset (PList [PStr ''c'']) 0 + 20" by code_simp
  have b3: "zip_element_right_to_left_iterator (PList [PStr ''c'']) 15 = ([(PStr ''c'', 0)], None)"
    by code_simp
  have h1: "well_formed (PList [PStr ''a'', PInt 9, PStr ''b'', PInt 7, PStr ''c''])"
    by code_simp
  have h2: "(0::nat) < 1" "2 * 1 < length [PStr ''a'', PInt 9, PStr ''b'', PInt 7, PStr ''c'']"
    by simp_all
  have h3: "15 < right_offset (PList [PStr ''a'', PInt 9, PStr ''b'', PInt 7, PStr ''c'']) (2 * (1 - 1))"
    by code_simp
  have h4: "filter (\<lambda>p. 2 * 1 \<le> hd p) (positions (PList [PStr ''a'', PInt 9, PStr ''b'', PInt 7, PStr ''c'']))
     = [[2], [4]]"
    by code_simp
  have h5: "well_formed (PTuple example_snarl_entries)" by code_simp
  have v1: "zip_element_right_to_left_iterator (PList [PStr ''a'', PInt 9, PStr ''b'', PInt 7, PStr ''c'']) 15 =
     ([(PStr ''c'', 0), (PStr ''b'', 7)], None)"
    by code_simp
  have v2: "zip_element_right_to_left_iterator (PTuple example_snarl_entries) 15 =
     ([(PStr ''h'', 1), (PStr ''g'', 2), (PStr ''f'', 8), (PStr ''e'', 15)], None)"
    by code_simp
  note r = rtl_chain_stops_snarl_tries_every_entry
         [where i = 4 and xs = "[PStr ''a'', PInt (-10), PStr ''b'', PInt 20, PStr ''c'']"
            and nested = "PStr ''c''" and dist = 0 and dist_n = 0 and dist_g = 20 and m = 15
            and right = "[PStr ''c'']" and t = 20 and left = "[PStr ''a'', PInt (-10), PStr ''b'']"
            and cs = "[PStr ''a'', PInt 9, PStr ''b'', PInt 7, PStr ''c'']" and k = 1
            and ys = example_snarl_entries]
  from r a1 a2 a3 a4 a5
  have c1: "rtl_chain_loop [PStr ''a'', PInt (-10), PStr ''b'', PInt 20, PStr ''c''] 15 4 0 =
     ([(PStr ''c'', 0)], None)"
    unfolding a6 [symmetric] by blast
  from r b1 b2
  have c2: "zip_element_right_to_left_iterator (PList ([PStr ''a'', PInt (-10), PStr ''b''] @ PInt 20 # [PStr ''c''])) 15 =
     ([(PStr ''c'', 0)], None)"
    unfolding b3 [symmetric] by blast
  from a1 a2 a3 a4 a5 c1 b1 b2 c2 h1 h2 h3 h4 v1 h5 v2 show ?thesis by (simp only: simp_thms)
qed

lemma dists_to_ge:
  "well_formed e \<Longrightarrow> q \<in> set (positions e) \<Longrightarrow> 0 \<le> d0 \<Longrightarrow>
   y \<in> set (dists_to e q d0) \<Longrightarrow> d0 \<le> snd y"
proof (induction q arbitrary: e)
  case Nil
  then show ?case by (simp add: dists_to_def)
next
  case (Cons i q)
  from Cons.prems(2) have i: "i \<in> set (child_indices e)" and q: "q \<in> set (positions (child e i))"
    by (simp_all only: positions_Cons_iff)
  note wfc = wf_child [OF Cons.prems(1) i]
  from Cons.prems(4) consider "y \<in> set (dists_to (child e i) q d0)"
    | l where "l < i" "l \<in> set (child_indices e)"
        "y \<in> set (shift (gap e l i + (d0 + dist_left (child e i) q)) (rdists (child e l)))"
    unfolding dists_to_Cons by auto
  then show ?case
  proof cases
    case 1
    from Cons.IH [OF wfc q Cons.prems(3) 1] show ?thesis .
  next
    case 2
    from shift_rdists_ge [OF wf_child [OF Cons.prems(1) 2(2)] 2(3)]
      gap_nonneg [OF Cons.prems(1) i 2(1,2)] dist_left_nonneg [OF wfc q]
    show ?thesis by simp
  qed
qed

lemma negative_reach:
  assumes "well_formed e" and "q \<in> set (positions e)" and "m < 0"
  shows "within m (dists_to e q 0) = []"
proof (rule within_all_above)
  fix y assume "y \<in> set (dists_to e q 0)"
  from dists_to_ge [OF assms(1,2) order_refl this] assms(3) show "m < snd y" by simp
qed

lemma negative_rtl:
  assumes "well_formed e" and "m < 0"
  shows "within m (rev (rdists e)) = []"
proof (rule within_all_above)
  fix y assume "y \<in> set (rev (rdists e))"
  then have "y \<in> set (rdists e)" by simp
  from rdists_nonneg [OF assms(1) this] assms(2) show "m < snd y" by simp
qed

text \<open>
  For a negative bound the right-to-left walker yields nothing on a well-formed chain or
  snarl, the outward walker yields nothing on the containment path of any seed of a
  well-formed element, and the all-pairs enumerator yields nothing on a well-formed element;
  all of them end normally.
\<close>

lemma negative_bound_containers_yield_nothing:
  assumes wf: "well_formed e" and m: "m < 0"
  shows "(\<not> is_seed e \<longrightarrow> zip_element_right_to_left_iterator e m = ([], None)) \<and>
         (\<forall>q\<in>set (positions e). zip_reachable_iterator (containment_path e q) m = ([], None)) \<and>
         zip_element_pairs_iterator e m = ([], None)"
proof (intro conjI ballI impI)
  assume ns: "\<not> is_seed e"
  from rtl_wf_container [OF wf ns, of m] negative_rtl [OF wf m]
  show "zip_element_right_to_left_iterator e m = ([], None)" by simp
next
  fix q assume q: "q \<in> set (positions e)"
  from reachable_wf [OF wf q, of m] negative_reach [OF wf q m]
  show "zip_reachable_iterator (containment_path e q) m = ([], None)" by simp
next
  have "pairs_of e m q = []" if "q \<in> set (positions e)" for q
    using negative_reach [OF wf that m] by (simp add: pairs_of_def)
  then have "concat (map (pairs_of e m) (positions e)) = []" by simp
  with pairs_wf [OF wf, of m] show "zip_element_pairs_iterator e m = ([], None)" by simp
qed

lemma negative_bound_example_tree:
  "well_formed example_tree \<and> (-1 :: int) < 0 \<and>
   zip_element_right_to_left_iterator example_tree (-1) = ([], None) \<and>
   list_all (\<lambda>q. zip_reachable_iterator (containment_path example_tree q) (-1) = ([], None))
     (positions example_tree) \<and>
   zip_element_pairs_iterator example_tree (-1) = ([], None)"
proof -
  have wf: "well_formed example_tree" by code_simp
  have s: "\<not> is_seed example_tree" by code_simp
  from negative_bound_containers_yield_nothing [OF wf, of "-1"] wf s show ?thesis
    by (simp add: list_all_iff)
qed

text \<open>
  Claim C6 says that for every well-formed element and every negative bound each query
  operation yields nothing, the right-to-left walker on a bare seed included.  The code does
  not do this on a bare seed: on the well-formed element \<open>'a'\<close> at the bound \<open>-1\<close> the seed
  branch of the right-to-left walker yields the seed at distance \<open>0\<close>, a distance above the
  bound.  The chain and the snarl branch of the same walker yield a seed only when its
  distance is at most the bound (\<open>d <= max_distance\<close>), and the walker is documented not to
  return seeds further than the bound; the seed branch has no such test.
\<close>

theorem negative_bound_seed_yielded:
  "well_formed (PStr ''a'') \<and> (-1 :: int) < 0 \<and>
   zip_element_right_to_left_iterator (PStr ''a'') (-1) = ([(PStr ''a'', 0)], None) \<and>
   list_all (\<lambda>(s, d). d \<le> -1) (fst (zip_element_right_to_left_iterator (PStr ''a'') (-1))) = False"
  by simp

lemma before_facts:
  assumes "q \<in> set (positions e)"
  shows "distinct (before e q)" and "set (before e q) \<subseteq> set (positions e)"
    and "\<And>p. p \<in> set (before e q) \<Longrightarrow> p < q"
proof -
  from positions_split [OF assms] obtain after where
    a: "positions e = before e q @ q # after" by blast
  from positions_distinct [of e] a show "distinct (before e q)"
    by (metis distinct_append)
  from a show "set (before e q) \<subseteq> set (positions e)"
    by (metis set_append Un_upper1)
  fix p assume "p \<in> set (before e q)"
  with positions_sorted [of e] a show "p < q"
    by (metis sorted_wrt_append list.set_intros(1))
qed

lemma before_nth:
  assumes "a < b" and "b < length (positions e)"
  shows "positions e ! a \<in> set (before e (positions e ! b))"
proof -
  from assms have "take b (positions e) ! a = positions e ! a" "a < length (take b (positions e))"
    by simp_all
  then have "positions e ! a \<in> set (take b (positions e))" by (metis nth_mem)
  with before_eq_take [OF assms(2)] show ?thesis by simp
qed

lemma before_is_nth:
  assumes "b < length (positions e)" and "p \<in> set (before e (positions e ! b))"
  shows "\<exists>a<b. p = positions e ! a"
proof -
  from assms(2) before_eq_take [OF assms(1)] have "p \<in> set (take b (positions e))" by simp
  then obtain a where "a < length (take b (positions e))" "take b (positions e) ! a = p"
    by (auto simp: in_set_conv_nth)
  with assms(1) show ?thesis by auto
qed

lemma pairs_of_mem:
  "y \<in> set (pairs_of e m q) \<Longrightarrow>
   \<exists>p\<in>set (before e q). y = (seed_at e q, seed_at e p, tree_distance e p q) \<and> tree_distance e p q \<le> m"
  by (auto simp: pairs_of_def within_def dists_to_def)

text \<open>
  Claim C8.  Every triple that the all-pairs enumerator yields on a well-formed tree holds the
  seeds at two different positions of the tree, the second one left of the first; so when the
  seeds of the tree are pairwise distinct values, the two seeds of a triple differ.
\<close>

theorem no_self_pairs:
  assumes wf: "well_formed t"
  shows "\<forall>(x, y, d) \<in> set (fst (zip_element_pairs_iterator t m)).
           (\<exists>a b. a < b \<and> b < length (positions t) \<and> positions t ! a \<noteq> positions t ! b \<and>
                  x = seed_at t (positions t ! b) \<and> y = seed_at t (positions t ! a)) \<and>
           (distinct (map (seed_at t) (positions t)) \<longrightarrow> x \<noteq> y)"
proof (intro ballI)
  fix z assume "z \<in> set (fst (zip_element_pairs_iterator t m))"
  with pairs_wf [OF wf, of m] obtain q where q: "q \<in> set (positions t)" "z \<in> set (pairs_of t m q)"
    by auto
  from pairs_of_mem [OF q(2)] obtain p where
    p: "p \<in> set (before t q)" "z = (seed_at t q, seed_at t p, tree_distance t p q)" by blast
  from q(1) obtain b where b: "b < length (positions t)" "q = positions t ! b"
    by (auto simp: in_set_conv_nth)
  from before_is_nth [OF b(1)] p(1) b(2) obtain a where a: "a < b" "p = positions t ! a" by blast
  from a b positions_distinct [of t] have ne: "positions t ! a \<noteq> positions t ! b"
    by (simp add: nth_eq_iff_index_eq)
  have "seed_at t (positions t ! b) \<noteq> seed_at t (positions t ! a)"
    if "distinct (map (seed_at t) (positions t))"
  proof -
    from a b have "map (seed_at t) (positions t) ! b = seed_at t (positions t ! b)"
      "map (seed_at t) (positions t) ! a = seed_at t (positions t ! a)" by simp_all
    moreover from that have "(map (seed_at t) (positions t) ! b = map (seed_at t) (positions t) ! a) = (b = a)"
      by (rule nth_eq_iff_index_eq) (use a b in simp_all)
    with a have "map (seed_at t) (positions t) ! b \<noteq> map (seed_at t) (positions t) ! a" by simp
    ultimately show ?thesis by simp
  qed
  with a b ne p(2) show "case z of (x, y, d) \<Rightarrow>
           (\<exists>a b. a < b \<and> b < length (positions t) \<and> positions t ! a \<noteq> positions t ! b \<and>
                  x = seed_at t (positions t ! b) \<and> y = seed_at t (positions t ! a)) \<and>
           (distinct (map (seed_at t) (positions t)) \<longrightarrow> x \<noteq> y)"
    by auto
qed

theorem no_self_pairs_witness:
  "well_formed example_tree \<and> distinct (map (seed_at example_tree) (positions example_tree)) \<and>
   list_all (\<lambda>(x, y, d). x \<noteq> y) (fst (zip_element_pairs_iterator example_tree 15)) \<and>
   length (fst (zip_element_pairs_iterator example_tree 15)) = 25"
proof -
  have wf: "well_formed example_tree" by code_simp
  have d: "distinct (map (seed_at example_tree) (positions example_tree))" by code_simp
  have n: "length (fst (zip_element_pairs_iterator example_tree 15)) = 25" by code_simp
  from no_self_pairs [OF wf, of 15] d
  have "\<forall>(x, y, d) \<in> set (fst (zip_element_pairs_iterator example_tree 15)). x \<noteq> y"
    by fast
  with wf d n show ?thesis by (simp add: list_all_iff)
qed

lemma concat_map_if_single:
  "distinct xs \<Longrightarrow> y \<in> set xs \<Longrightarrow> concat (map (\<lambda>x. if x = y then [z] else []) xs) = [z]"
proof (induction xs)
  case Nil
  then show ?case by simp
next
  case (Cons x xs)
  show ?case
  proof (cases "x = y")
    case True
    with Cons.prems have "y \<notin> set xs" by simp
    then have "map (\<lambda>x. if x = y then [z] else []) xs = map (\<lambda>x. []) xs"
      by (intro map_cong) auto
    with True show ?thesis by simp
  next
    case False
    with Cons show ?thesis by simp
  qed
qed

lemma filter_eq_single: "distinct xs \<Longrightarrow> y \<in> set xs \<Longrightarrow> filter (\<lambda>x. x = y) xs = [y]"
proof (induction xs)
  case Nil
  then show ?case by simp
next
  case (Cons x xs)
  show ?case
  proof (cases "x = y")
    case True
    with Cons.prems have "y \<notin> set xs" by simp
    then have "filter (\<lambda>x. x = y) xs = []" by (auto simp: filter_empty_conv)
    with True show ?thesis by simp
  next
    case False
    with Cons show ?thesis by simp
  qed
qed

lemma pairs_of_eq:
  "pairs_of e m q =
   map (\<lambda>p. (seed_at e q, seed_at e p, tree_distance e p q))
     (filter (\<lambda>p. tree_distance e p q \<le> m) (rev (before e q)))"
  by (simp add: pairs_of_def within_def dists_to_def filter_map comp_def)

lemma take_as_map_nth: "b \<le> length xs \<Longrightarrow> take b xs = map ((!) xs) [0..<b]"
  by (rule nth_equalityI) simp_all

lemma pairs_index_form:
  assumes wf: "well_formed t"
  shows "zip_element_pairs_iterator t m =
     (concat (map (\<lambda>b. map (\<lambda>a. (seed_at t (positions t ! b), seed_at t (positions t ! a),
                                  tree_distance t (positions t ! a) (positions t ! b)))
                          (filter (\<lambda>a. tree_distance t (positions t ! a) (positions t ! b) \<le> m)
                             (rev [0..<b])))
                [0..<length (positions t)]), None)"
proof -
  define ps where "ps = positions t"
  have one: "pairs_of t m (ps ! b) =
        map (\<lambda>a. (seed_at t (ps ! b), seed_at t (ps ! a), tree_distance t (ps ! a) (ps ! b)))
          (filter (\<lambda>a. tree_distance t (ps ! a) (ps ! b) \<le> m) (rev [0..<b]))"
    if "b \<in> set [0..<length ps]" for b
  proof -
    from that have b: "b < length (positions t)" by (simp add: ps_def)
    then have "before t (ps ! b) = map ((!) ps) [0..<b]"
      unfolding ps_def by (simp add: before_eq_take take_as_map_nth)
    then show ?thesis
      by (simp add: pairs_of_eq rev_map filter_map comp_def)
  qed
  have "concat (map (pairs_of t m) ps) = concat (map (pairs_of t m) (map ((!) ps) [0..<length ps]))"
    by (simp only: map_nth)
  also have "\<dots> = concat (map (\<lambda>b. pairs_of t m (ps ! b)) [0..<length ps])"
    by (simp add: comp_def)
  also have "\<dots> = concat (map (\<lambda>b. map (\<lambda>a. (seed_at t (ps ! b), seed_at t (ps ! a), tree_distance t (ps ! a) (ps ! b)))
          (filter (\<lambda>a. tree_distance t (ps ! a) (ps ! b) \<le> m) (rev [0..<b]))) [0..<length ps])"
    by (rule arg_cong [where f = concat], rule map_cong [OF refl]) (rule one)
  finally show ?thesis using pairs_wf [OF wf, of m] by (simp add: ps_def)
qed

lemma pairs_single:
  assumes wf: "well_formed t"
    and dist: "distinct (map (seed_at t) (positions t))"
    and ab: "a < b" "b < length (positions t)"
    and le: "tree_distance t (positions t ! a) (positions t ! b) \<le> m"
  shows "filter (\<lambda>(x, y, d). (x = seed_at t (positions t ! a) \<and> y = seed_at t (positions t ! b)) \<or>
                            (x = seed_at t (positions t ! b) \<and> y = seed_at t (positions t ! a)))
           (fst (zip_element_pairs_iterator t m)) =
         [(seed_at t (positions t ! b), seed_at t (positions t ! a),
           tree_distance t (positions t ! a) (positions t ! b))]"
proof -
  define ps where "ps = positions t"
  define pa where "pa = ps ! a"
  define qb where "qb = ps ! b"
  define pred where "pred = (\<lambda>(x, y, d :: int). (x = seed_at t pa \<and> y = seed_at t qb) \<or>
                                              (x = seed_at t qb \<and> y = seed_at t pa))"
  define z where "z = (seed_at t qb, seed_at t pa, tree_distance t pa qb)"
  from ab have pa_in: "pa \<in> set ps" and qb_in: "qb \<in> set ps"
    by (simp_all add: pa_def qb_def ps_def)
  from dist have inj: "inj_on (seed_at t) (set ps)" by (simp add: distinct_map ps_def)
  have pa_before: "pa \<in> set (before t qb)"
    unfolding pa_def qb_def ps_def by (rule before_nth [OF ab])
  have one: "filter pred (pairs_of t m q) = (if q = qb then [z] else [])" if q: "q \<in> set ps" for q
  proof -
    from q have q': "q \<in> set (positions t)" by (simp add: ps_def)
    note bf = before_facts [OF q']
    have iff: "pred (seed_at t q, seed_at t p, tree_distance t p q) \<longleftrightarrow> q = qb \<and> p = pa"
      if p: "p \<in> set (rev (before t q))" for p
    proof -
      from p bf(2) have p_in: "p \<in> set ps" by (auto simp: ps_def)
      from p bf(3) have lt: "p < q" by simp
      have "\<not> (q = pa \<and> p = qb)"
      proof
        assume "q = pa \<and> p = qb"
        with lt have "qb < pa" by simp
        moreover from pa_before before_facts(3) [of qb t] qb_in have "pa < qb" by (simp add: ps_def)
        ultimately show False by simp
      qed
      moreover have "seed_at t q = seed_at t pa \<longleftrightarrow> q = pa" "seed_at t p = seed_at t qb \<longleftrightarrow> p = qb"
        "seed_at t q = seed_at t qb \<longleftrightarrow> q = qb" "seed_at t p = seed_at t pa \<longleftrightarrow> p = pa"
        using inj q p_in pa_in qb_in by (auto dest: inj_onD)
      ultimately show ?thesis by (auto simp: pred_def)
    qed
    have "filter pred (pairs_of t m q) =
          map (\<lambda>p. (seed_at t q, seed_at t p, tree_distance t p q))
            (filter (\<lambda>p. tree_distance t p q \<le> m \<and> pred (seed_at t q, seed_at t p, tree_distance t p q))
               (rev (before t q)))"
      by (simp add: pairs_of_eq filter_map comp_def conj_commute)
    also have "filter (\<lambda>p. tree_distance t p q \<le> m \<and> pred (seed_at t q, seed_at t p, tree_distance t p q))
                 (rev (before t q)) =
               filter (\<lambda>p. tree_distance t p q \<le> m \<and> q = qb \<and> p = pa) (rev (before t q))"
      by (rule filter_cong [OF refl]) (simp add: iff)
    also have "\<dots> = (if q = qb then [pa] else [])"
    proof (cases "q = qb")
      case True
      have "filter (\<lambda>p. tree_distance t p qb \<le> m \<and> p = pa) (rev (before t qb)) =
            filter (\<lambda>p. p = pa) (rev (before t qb))"
        using le by (intro filter_cong [OF refl]) (auto simp: pa_def qb_def ps_def)
      also have "\<dots> = [pa]"
        using bf(1) pa_before True by (intro filter_eq_single) simp_all
      finally show ?thesis using True by simp
    next
      case False
      then show ?thesis by simp
    qed
    finally show ?thesis by (simp add: z_def)
  qed
  have "filter pred (concat (map (pairs_of t m) ps)) = concat (map (\<lambda>q. filter pred (pairs_of t m q)) ps)"
    by (simp add: filter_concat comp_def)
  also have "\<dots> = concat (map (\<lambda>q. if q = qb then [z] else []) ps)"
    by (rule arg_cong [where f = concat], rule map_cong [OF refl]) (rule one)
  also have "\<dots> = [z]"
    using positions_distinct [of t] qb_in by (intro concat_map_if_single) (simp_all add: ps_def)
  finally have "filter pred (fst (zip_element_pairs_iterator t m)) = [z]"
    using pairs_wf [OF wf, of m] by (simp add: ps_def)
  then show ?thesis
    unfolding pred_def z_def pa_def qb_def ps_def by simp
qed

text \<open>
  Claim C1.  On a well-formed tree the all-pairs enumerator ends normally and yields, for each
  seed position \<open>b\<close> of the left-to-right order and each position \<open>a\<close> before it (from the
  nearest to the leftmost) whose distance to \<open>b\<close> is within the bound, the triple of the seed
  at \<open>b\<close>, the seed at \<open>a\<close> and their distance: one triple for each such pair of positions,
  the earlier seed second.  So when the seeds of the tree are pairwise distinct values and the
  seeds at \<open>a < b\<close> are at a distance within the bound, exactly one of the yielded triples holds
  these two seeds, in either order: the later seed, the earlier seed and their distance.
\<close>

theorem all_pairs_complete:
  assumes wf: "well_formed t"
    and ab: "a < b" "b < length (positions t)"
    and le: "tree_distance t (positions t ! a) (positions t ! b) \<le> m"
  shows "zip_element_pairs_iterator t m =
           (concat (map (\<lambda>j. map (\<lambda>i. (seed_at t (positions t ! j), seed_at t (positions t ! i),
                                        tree_distance t (positions t ! i) (positions t ! j)))
                                (filter (\<lambda>i. tree_distance t (positions t ! i) (positions t ! j) \<le> m)
                                   (rev [0..<j])))
                      [0..<length (positions t)]), None) \<and>
         (distinct (map (seed_at t) (positions t)) \<longrightarrow>
          filter (\<lambda>(x, y, d). (x = seed_at t (positions t ! a) \<and> y = seed_at t (positions t ! b)) \<or>
                            (x = seed_at t (positions t ! b) \<and> y = seed_at t (positions t ! a)))
            (fst (zip_element_pairs_iterator t m)) =
          [(seed_at t (positions t ! b), seed_at t (positions t ! a),
            tree_distance t (positions t ! a) (positions t ! b))])"
  using pairs_index_form [OF wf, of m] pairs_single [OF wf _ ab le] by blast

theorem all_pairs_complete_witness:
  "well_formed example_tree \<and>
   distinct (map (seed_at example_tree) (positions example_tree)) \<and>
   (3::nat) < 7 \<and> 7 < length (positions example_tree) \<and>
   seed_at example_tree (positions example_tree ! 3) = PStr ''d'' \<and>
   seed_at example_tree (positions example_tree ! 7) = PStr ''h'' \<and>
   tree_distance example_tree (positions example_tree ! 3) (positions example_tree ! 7) = 7 \<and>
   (7::int) \<le> 15 \<and>
   filter (\<lambda>(x, y, d). (x = PStr ''d'' \<and> y = PStr ''h'') \<or> (x = PStr ''h'' \<and> y = PStr ''d''))
     (fst (zip_element_pairs_iterator example_tree 15)) = [(PStr ''h'', PStr ''d'', 7)] \<and>
   snd (zip_element_pairs_iterator example_tree 15) = None"
proof -
  have wf: "well_formed example_tree" by code_simp
  have d: "distinct (map (seed_at example_tree) (positions example_tree))" by code_simp
  have ab: "(3::nat) < 7" "7 < length (positions example_tree)" by code_simp+
  have s3: "seed_at example_tree (positions example_tree ! 3) = PStr ''d''" by code_simp
  have s7: "seed_at example_tree (positions example_tree ! 7) = PStr ''h''" by code_simp
  have td: "tree_distance example_tree (positions example_tree ! 3) (positions example_tree ! 7) = 7"
    by code_simp
  have le: "tree_distance example_tree (positions example_tree ! 3) (positions example_tree ! 7) \<le> 15"
    unfolding td by simp
  note r = all_pairs_complete [OF wf ab le]
  from r [THEN conjunct2, THEN mp, OF d]
  have f: "filter (\<lambda>(x, y, d). (x = seed_at example_tree (positions example_tree ! 3) \<and>
                             y = seed_at example_tree (positions example_tree ! 7)) \<or>
                            (x = seed_at example_tree (positions example_tree ! 7) \<and>
                             y = seed_at example_tree (positions example_tree ! 3)))
            (fst (zip_element_pairs_iterator example_tree 15)) =
          [(seed_at example_tree (positions example_tree ! 7), seed_at example_tree (positions example_tree ! 3),
            tree_distance example_tree (positions example_tree ! 3) (positions example_tree ! 7))]" .
  from r [THEN conjunct1] have n: "snd (zip_element_pairs_iterator example_tree 15) = None"
    by (simp only: snd_conv)
  from f n wf d ab show ?thesis unfolding s3 s7 td by simp
qed

end
